theory Spec2Isabelle
  imports Main "HOL-Library.Word"
begin

section \<open>The static FIFO of \<open>FIFO.hpp\<close>\<close>

text \<open>
  \<open>Fifo<T, t_size>\<close> is a ring buffer over a \<open>std::array<T, t_size>\<close> with three
  \<open>size_t\<close> members. The members are modelled as machine words of an arbitrary width
  \<open>'w\<close> (\<open>size_t\<close> is 32 or 64 bits wide, depending on the platform), so that \<open>+\<close>,
  \<open>-\<close> and \<open>%\<close> are the wrapping operations of the source. The template parameter
  \<open>t_size\<close> is the first argument of every operation. The array is a list; an element
  is read with \<open>!\<close> and stored with a list update at the \<open>unat\<close> of the index.
\<close>

record (overloaded) ('a, 'w) Fifo =
  m_buffer :: "'a list"
  m_readIdx :: "'w word"
  m_writeIdx :: "'w word"
  m_nbElements :: "'w word"

subsection \<open>Construction, \<open>getCount\<close>, \<open>reset\<close>\<close>

text \<open>
  \<open>Fifo()\<close>: the three members are zero and \<open>m_buffer{}\<close> is value-initialised;
  \<open>dflt\<close> stands for the value-initialised \<open>T\<close>.
\<close>

definition Fifo_ctor :: "'w::len word \<Rightarrow> 'a \<Rightarrow> ('a, 'w) Fifo" where
  "Fifo_ctor t_size dflt =
     \<lparr>m_buffer = replicate (unat t_size) dflt, m_readIdx = 0, m_writeIdx = 0, m_nbElements = 0\<rparr>"

definition getCount :: "('a, 'w::len) Fifo \<Rightarrow> 'w word" where
  "getCount f = m_nbElements f"

definition reset :: "('a, 'w::len) Fifo \<Rightarrow> ('a, 'w) Fifo" where
  "reset f = f\<lparr>m_writeIdx := 0, m_readIdx := 0, m_nbElements := 0\<rparr>"

subsection \<open>\<open>pop_back\<close>\<close>

text \<open>
  The caller's \<open>*dest\<close> is passed in and handed back, so that an untouched destination
  is visible in the result: \<open>(return value, *dest afterwards, buffer afterwards)\<close>.
\<close>

definition pop_back :: "'w::len word \<Rightarrow> ('a, 'w) Fifo \<Rightarrow> 'a \<Rightarrow> bool \<times> 'a \<times> ('a, 'w) Fifo" where
  "pop_back t_size f dest =
     (if m_nbElements f \<noteq> 0
      then (True, m_buffer f ! unat (m_readIdx f),
            f\<lparr>m_readIdx := (m_readIdx f + 1) mod t_size, m_nbElements := m_nbElements f - 1\<rparr>)
      else (False, dest, f))"

subsection \<open>\<open>push\<close>\<close>

text \<open>
  The body of the range-for loop of \<open>push(std::span<const T>, bool)\<close>, on the pair of
  the buffer and the local \<open>nbElementsCopied\<close>.
\<close>

definition push_elem ::
  "'w::len word \<Rightarrow> 'a \<Rightarrow> ('a, 'w) Fifo \<times> 'w word \<Rightarrow> ('a, 'w) Fifo \<times> 'w word" where
  "push_elem t_size element s =
     (let f = fst s; nbElementsCopied = snd s;
          f1 = f\<lparr>m_buffer := (m_buffer f)[unat (m_writeIdx f) := element]\<rparr>;
          f2 = f1\<lparr>m_writeIdx := (m_writeIdx f1 + 1) mod t_size\<rparr>
      in if m_nbElements f2 < t_size
         then (f2\<lparr>m_nbElements := m_nbElements f2 + 1\<rparr>, nbElementsCopied + 1)
         else (f2\<lparr>m_readIdx := m_writeIdx f2\<rparr>, nbElementsCopied))"

fun push_loop ::
  "'w::len word \<Rightarrow> 'a list \<Rightarrow> ('a, 'w) Fifo \<times> 'w word \<Rightarrow> ('a, 'w) Fifo \<times> 'w word" where
  "push_loop t_size [] s = s"
| "push_loop t_size (element # src) s = push_loop t_size src (push_elem t_size element s)"

text \<open>
  The span is the list of its elements. \<open>src.size()\<close> is a \<open>size_t\<close> holding the
  length of the span, so the guard compares the length with the value of the wrapping
  difference \<open>t_size - m_nbElements\<close>. The result is \<open>(return value, buffer afterwards)\<close>.
\<close>

definition push :: "'w::len word \<Rightarrow> ('a, 'w) Fifo \<Rightarrow> 'a list \<Rightarrow> bool \<Rightarrow> 'w word \<times> ('a, 'w) Fifo" where
  "push t_size f src overwrite =
     (if \<not> overwrite \<and> length src > unat (t_size - m_nbElements f)
      then (0, f)
      else (snd (push_loop t_size src (f, 0)), fst (push_loop t_size src (f, 0))))"

text \<open>\<open>push(T *src, size_t size, bool)\<close>: the \<open>size\<close> elements at \<open>src\<close> as a span.\<close>

definition push_ptr :: "'w::len word \<Rightarrow> ('a, 'w) Fifo \<Rightarrow> 'a list \<Rightarrow> bool \<Rightarrow> 'w word \<times> ('a, 'w) Fifo" where
  "push_ptr t_size f src overwrite = push t_size f src overwrite"

text \<open>\<open>push(T var, bool)\<close>: \<open>push(&var, 1, overwrite) != 0\<close>.\<close>

definition push_var :: "'w::len word \<Rightarrow> ('a, 'w) Fifo \<Rightarrow> 'a \<Rightarrow> bool \<Rightarrow> bool \<times> ('a, 'w) Fifo" where
  "push_var t_size f var overwrite =
     (fst (push_ptr t_size f [var] overwrite) \<noteq> 0, snd (push_ptr t_size f [var] overwrite))"

text \<open>
  \<open>Fifo(const std::initializer_list<T> &)\<close>: the default constructor, then
  \<open>push(item)\<close> for every item. The \<open>assert\<close> on a string literal never fires.
\<close>

fun ctor_loop :: "'w::len word \<Rightarrow> 'a list \<Rightarrow> ('a, 'w) Fifo \<Rightarrow> ('a, 'w) Fifo" where
  "ctor_loop t_size [] f = f"
| "ctor_loop t_size (item # initList) f = ctor_loop t_size initList (snd (push_var t_size f item False))"

definition Fifo_ctor_list :: "'w::len word \<Rightarrow> 'a \<Rightarrow> 'a list \<Rightarrow> ('a, 'w) Fifo" where
  "Fifo_ctor_list t_size dflt initList = ctor_loop t_size initList (Fifo_ctor t_size dflt)"

subsection \<open>\<open>drop\<close>\<close>

definition drop_fifo :: "'w::len word \<Rightarrow> ('a, 'w) Fifo \<Rightarrow> 'w word \<Rightarrow> 'w word \<times> ('a, 'w) Fifo" where
  "drop_fifo t_size f sz =
     (let droppedSamples = min (m_nbElements f) sz;
          f1 = f\<lparr>m_nbElements := m_nbElements f - droppedSamples\<rparr>;
          f2 = f1\<lparr>m_readIdx := (m_readIdx f1 + droppedSamples) mod t_size\<rparr>
      in (droppedSamples, f2))"

subsection \<open>\<open>pull\<close> and \<open>read\<close>\<close>

text \<open>
  The caller's memory behind the pointer \<open>destination\<close> is a function from the offset
  (in elements) to the value stored there: \<open>*destination = v\<close> after \<open>k\<close> increments
  of the pointer is the update of offset \<open>k\<close>. The loop state is the buffer, that memory,
  the offset of the moving pointer and \<open>availSpace\<close>.
\<close>

function pull_loop ::
  "'w::len word \<Rightarrow> ('a, 'w) Fifo \<Rightarrow> (nat \<Rightarrow> 'a) \<Rightarrow> nat \<Rightarrow> 'w word
     \<Rightarrow> ('a, 'w) Fifo \<times> (nat \<Rightarrow> 'a) \<times> 'w word" where
  "pull_loop t_size f mem destination availSpace =
     (if availSpace > 0 \<and> m_nbElements f > 0
      then pull_loop t_size
             (f\<lparr>m_readIdx := (m_readIdx f + 1) mod t_size, m_nbElements := m_nbElements f - 1\<rparr>)
             (mem(destination := m_buffer f ! unat (m_readIdx f)))
             (destination + 1) (availSpace - 1)
      else (f, mem, availSpace))"
  by pat_completeness auto
termination
  by (relation "measure (\<lambda>(t_size, f, mem, destination, availSpace). unat availSpace)")
     (auto simp: unat_minus_one word_greater_zero_iff unat_gt_0)

text \<open>The result is \<open>(return value, destination memory afterwards, buffer afterwards)\<close>.\<close>

definition pull ::
  "'w::len word \<Rightarrow> ('a, 'w) Fifo \<Rightarrow> (nat \<Rightarrow> 'a) \<Rightarrow> 'w word
     \<Rightarrow> 'w word \<times> (nat \<Rightarrow> 'a) \<times> ('a, 'w) Fifo" where
  "pull t_size f mem availSpace =
     (let nbElementsToCopy = availSpace;
          r = pull_loop t_size f mem 0 availSpace
      in (nbElementsToCopy - snd (snd r), fst (snd r), fst r))"

text \<open>
  \<open>read\<close> runs the same loop on the locals \<open>readIdx\<close> and \<open>remainInFifo\<close>; no member
  is assigned, and the buffer is handed back as it came.
\<close>

function read_loop ::
  "'w::len word \<Rightarrow> ('a, 'w) Fifo \<Rightarrow> 'w word \<Rightarrow> 'w word \<Rightarrow> (nat \<Rightarrow> 'a) \<Rightarrow> nat \<Rightarrow> 'w word
     \<Rightarrow> (nat \<Rightarrow> 'a) \<times> 'w word" where
  "read_loop t_size f readIdx remainInFifo mem destination availSpace =
     (if availSpace > 0 \<and> remainInFifo > 0
      then read_loop t_size f ((readIdx + 1) mod t_size) (remainInFifo - 1)
             (mem(destination := m_buffer f ! unat readIdx))
             (destination + 1) (availSpace - 1)
      else (mem, availSpace))"
  by pat_completeness auto
termination
  by (relation "measure (\<lambda>(t_size, f, readIdx, remainInFifo, mem, destination, availSpace). unat availSpace)")
     (auto simp: unat_minus_one word_greater_zero_iff unat_gt_0)

definition read ::
  "'w::len word \<Rightarrow> ('a, 'w) Fifo \<Rightarrow> (nat \<Rightarrow> 'a) \<Rightarrow> 'w word
     \<Rightarrow> 'w word \<times> (nat \<Rightarrow> 'a) \<times> ('a, 'w) Fifo" where
  "read t_size f mem availSpace =
     (let nbElementsToCopy = availSpace;
          readIdx = m_readIdx f;
          remainInFifo = m_nbElements f;
          r = read_loop t_size f readIdx remainInFifo mem 0 availSpace
      in (nbElementsToCopy - snd r, fst r, f))"

subsection \<open>\<open>operator[]\<close> and \<open>operator==\<close>\<close>

definition subscript :: "'w::len word \<Rightarrow> ('a, 'w) Fifo \<Rightarrow> 'w word \<Rightarrow> 'a" where
  "subscript t_size f idx = (let readIndex = (m_readIdx f + idx) mod t_size in m_buffer f ! unat readIndex)"

function eq_loop ::
  "'w::len word \<Rightarrow> ('a, 'w) Fifo \<Rightarrow> ('a, 'w) Fifo \<Rightarrow> 'w word \<Rightarrow> 'w word \<Rightarrow> 'w word \<Rightarrow> bool" where
  "eq_loop t_size f other idx otherIdx i =
     (if i < m_nbElements f
      then (if m_buffer f ! unat idx \<noteq> m_buffer other ! unat otherIdx
            then False
            else eq_loop t_size f other ((idx + 1) mod t_size) ((otherIdx + 1) mod t_size) (i + 1))
      else True)"
  by pat_completeness auto
termination
proof (relation "measure (\<lambda>(t_size, f, other, idx, otherIdx, i). unat (m_nbElements f) - unat i)",
    goal_cases)
  case 1
  show ?case by simp
next
  case (2 t_size f other idx otherIdx i)
  from \<open>i < m_nbElements f\<close>
  have "unat (m_nbElements f) - unat (i + 1) < unat (m_nbElements f) - unat i"
    by unat_arith
  then show ?case by simp
qed

definition operator_eq :: "'w::len word \<Rightarrow> ('a, 'w) Fifo \<Rightarrow> ('a, 'w) Fifo \<Rightarrow> bool" where
  "operator_eq t_size f other =
     (if m_nbElements f \<noteq> m_nbElements other
      then False
      else eq_loop t_size f other (m_readIdx f) (m_readIdx other) 0)"

subsection \<open>Sequences of operations\<close>

text \<open>
  The public mutating interface as a datatype of calls (\<open>'s\<close> is the type of the
  \<open>size_t\<close> arguments), and the buffer after a sequence of calls.
\<close>

datatype ('a, 's) call =
    Push "'a list" bool
  | PushVar 'a bool
  | Pop 'a
  | Pull "nat \<Rightarrow> 'a" 's
  | Read "nat \<Rightarrow> 'a" 's
  | Drop 's
  | Reset

fun apply_call :: "'w::len word \<Rightarrow> ('a, 'w) Fifo \<Rightarrow> ('a, 'w word) call \<Rightarrow> ('a, 'w) Fifo" where
  "apply_call t_size f (Push src overwrite) = snd (push t_size f src overwrite)"
| "apply_call t_size f (PushVar var overwrite) = snd (push_var t_size f var overwrite)"
| "apply_call t_size f (Pop dest) = snd (snd (pop_back t_size f dest))"
| "apply_call t_size f (Pull mem availSpace) = snd (snd (pull t_size f mem availSpace))"
| "apply_call t_size f (Read mem availSpace) = snd (snd (read t_size f mem availSpace))"
| "apply_call t_size f (Drop sz) = snd (drop_fifo t_size f sz)"
| "apply_call t_size f Reset = reset f"

fun run_calls :: "'w::len word \<Rightarrow> ('a, 'w) Fifo \<Rightarrow> ('a, 'w word) call list \<Rightarrow> ('a, 'w) Fifo" where
  "run_calls t_size f [] = f"
| "run_calls t_size f (c # cs) = run_calls t_size (apply_call t_size f c) cs"

text \<open>
  Pushes without overwrite, one span after the other, and pulls, one request after the
  other; \<open>pull_all\<close> collects what each \<open>pull\<close> stored at the destination it was given
  (the first \<open>return value\<close> elements), in the order of the calls.
\<close>

fun push_all :: "'w::len word \<Rightarrow> ('a, 'w) Fifo \<Rightarrow> 'a list list \<Rightarrow> ('a, 'w) Fifo" where
  "push_all t_size f [] = f"
| "push_all t_size f (src # srcs) = push_all t_size (snd (push t_size f src False)) srcs"

definition delivered :: "'w::len word \<times> (nat \<Rightarrow> 'a) \<times> ('a, 'w) Fifo \<Rightarrow> 'a list" where
  "delivered r = map (fst (snd r)) [0..<unat (fst r)]"

fun pull_all :: "'w::len word \<Rightarrow> ('a, 'w) Fifo \<Rightarrow> ((nat \<Rightarrow> 'a) \<times> 'w word) list \<Rightarrow> 'a list" where
  "pull_all t_size f [] = []"
| "pull_all t_size f ((mem, availSpace) # reqs) =
     delivered (pull t_size f mem availSpace)
       @ pull_all t_size (snd (snd (pull t_size f mem availSpace))) reqs"

text \<open>
  \<open>read\<close> called \<open>n\<close> times in a row with the same pointer and the same \<open>availSpace\<close>:
  every call finds the memory as the call before left it. The results of the calls
  are collected in order.
\<close>

fun read_repeat ::
  "nat \<Rightarrow> 'w::len word \<Rightarrow> ('a, 'w) Fifo \<Rightarrow> (nat \<Rightarrow> 'a) \<Rightarrow> 'w word
     \<Rightarrow> ('w word \<times> (nat \<Rightarrow> 'a) \<times> ('a, 'w) Fifo) list" where
  "read_repeat 0 t_size f mem availSpace = []"
| "read_repeat (Suc n) t_size f mem availSpace =
     read t_size f mem availSpace
       # read_repeat n t_size (snd (snd (read t_size f mem availSpace)))
           (fst (snd (read t_size f mem availSpace))) availSpace"

subsection \<open>The data invariant and the logical content\<close>

text \<open>
  The invariant of the three indices, with the sum \<open>readIdx + nbElements\<close> taken in the
  natural numbers, and the array holding \<open>t_size\<close> slots.
\<close>

definition Fifo_inv :: "'w::len word \<Rightarrow> ('a, 'w) Fifo \<Rightarrow> bool" where
  "Fifo_inv t_size f \<longleftrightarrow>
     length (m_buffer f) = unat t_size \<and>
     m_nbElements f \<le> t_size \<and> m_readIdx f < t_size \<and> m_writeIdx f < t_size \<and>
     unat (m_writeIdx f) = (unat (m_readIdx f) + unat (m_nbElements f)) mod unat t_size"

text \<open>
  The elements in logical read order: position \<open>i\<close> is the slot
  \<open>(readIdx + i) mod t_size\<close>, for \<open>i\<close> below the count.
\<close>

definition logical :: "'w::len word \<Rightarrow> ('a, 'w) Fifo \<Rightarrow> nat \<Rightarrow> 'a" where
  "logical t_size f i = m_buffer f ! ((unat (m_readIdx f) + i) mod unat t_size)"

definition contents :: "'w::len word \<Rightarrow> ('a, 'w) Fifo \<Rightarrow> 'a list" where
  "contents t_size f = map (logical t_size f) [0..<unat (m_nbElements f)]"

text \<open>The last \<open>k\<close> elements of a list (all of it when it is shorter).\<close>

definition lastn :: "nat \<Rightarrow> 'a list \<Rightarrow> 'a list" where
  "lastn k xs = drop (length xs - k) xs"

section \<open>Word arithmetic of the indices\<close>

text \<open>
  The equations of the three loops recur under an \<open>if\<close>, so the simplifier unfolds them
  only on request.
\<close>

declare pull_loop.simps [simp del] read_loop.simps [simp del] eq_loop.simps [simp del]

lemma unat_inc: "(i::'w::len word) < n \<Longrightarrow> unat (i + 1) = Suc (unat i)"
  by unat_arith

lemma unat_inc_mod: "(x::'w::len word) < t \<Longrightarrow> unat ((x + 1) mod t) = Suc (unat x) mod unat t"
  by (simp add: unat_mod unat_inc)

lemma inc_mod_less: "(x::'w::len word) < t \<Longrightarrow> (x + 1) mod t < t"
  by (simp add: word_less_nat_alt unat_mod)

lemma Fifo_inv_nat:
  assumes "Fifo_inv t f"
  shows "0 < unat t" "unat (m_readIdx f) < unat t" "unat (m_writeIdx f) < unat t"
    "unat (m_nbElements f) \<le> unat t" "length (m_buffer f) = unat t"
    "unat (m_writeIdx f) = (unat (m_readIdx f) + unat (m_nbElements f)) mod unat t"
  using assms by (auto simp: Fifo_inv_def word_less_nat_alt word_le_nat_alt)

lemma mod_shift_neq:
  fixes R T i j :: nat
  assumes "i < j" "j - i < T"
  shows "(R + i) mod T \<noteq> (R + j) mod T"
proof
  assume "(R + i) mod T = (R + j) mod T"
  then have "(R + j) mod T = (R + i) mod T" by simp
  moreover have "R + i \<le> R + j" using assms by simp
  ultimately have "T dvd (R + j) - (R + i)"
    by (simp add: mod_eq_dvd_iff_nat)
  then have "T dvd j - i" by simp
  with assms show False
    by (auto dest: dvd_imp_le)
qed

lemma Fifo_inv_full_widx:
  assumes "Fifo_inv t f" "m_nbElements f = t"
  shows "m_writeIdx f = m_readIdx f"
proof -
  have "unat (m_writeIdx f) = unat (m_readIdx f)"
    using Fifo_inv_nat [OF assms(1)] assms(2) by simp
  then show ?thesis by (simp add: word_unat_eq_iff)
qed

lemma push_elem_grow_eq:
  assumes "m_nbElements f < t"
  shows "push_elem t x (f, n) =
    (f\<lparr>m_buffer := (m_buffer f)[unat (m_writeIdx f) := x],
       m_writeIdx := (m_writeIdx f + 1) mod t,
       m_nbElements := m_nbElements f + 1\<rparr>, n + 1)"
  using assms by (simp add: push_elem_def)

lemma push_elem_full_eq:
  assumes "\<not> m_nbElements f < t"
  shows "push_elem t x (f, n) =
    (f\<lparr>m_buffer := (m_buffer f)[unat (m_writeIdx f) := x],
       m_writeIdx := (m_writeIdx f + 1) mod t,
       m_readIdx := (m_writeIdx f + 1) mod t\<rparr>, n)"
  using assms by (simp add: push_elem_def)

lemma push_elem_inv:
  assumes inv: "Fifo_inv t f"
  shows "Fifo_inv t (fst (push_elem t x (f, n)))"
proof (cases "m_nbElements f < t")
  case True
  note nat = Fifo_inv_nat [OF inv]
  have w: "m_writeIdx f < t" using inv by (simp add: Fifo_inv_def)
  have c: "unat (m_nbElements f + 1) = Suc (unat (m_nbElements f))"
    using True by (rule unat_inc)
  have "Suc (unat (m_writeIdx f)) mod unat t
      = (unat (m_readIdx f) + Suc (unat (m_nbElements f))) mod unat t"
    using nat(6) by (metis add_Suc_right mod_Suc_eq)
  then show ?thesis
    using inv True w
    by (simp add: push_elem_grow_eq Fifo_inv_def inc_mod_less unat_inc_mod c inc_le)
next
  case False
  note nat = Fifo_inv_nat [OF inv]
  have w: "m_writeIdx f < t" using inv by (simp add: Fifo_inv_def)
  have full: "m_nbElements f = t" using False inv by (simp add: Fifo_inv_def)
  have "(Suc (unat (m_writeIdx f)) mod unat t + unat t) mod unat t = Suc (unat (m_writeIdx f)) mod unat t"
    by simp
  then show ?thesis
    using inv False w full
    by (simp add: push_elem_full_eq Fifo_inv_def inc_mod_less unat_inc_mod)
qed


lemma length_contents [simp]: "length (contents t f) = unat (m_nbElements f)"
  by (simp add: contents_def)

lemma nth_contents: "i < unat (m_nbElements f) \<Longrightarrow> contents t f ! i = logical t f i"
  by (simp add: contents_def)

lemma push_elem_contents_grow:
  assumes inv: "Fifo_inv t f" and lt: "m_nbElements f < t"
  shows "contents t (fst (push_elem t x (f, n))) = contents t f @ [x]"
proof (rule nth_equalityI)
  note nat = Fifo_inv_nat [OF inv]
  have c: "unat (m_nbElements f + 1) = Suc (unat (m_nbElements f))"
    using lt by (rule unat_inc)
  have C: "unat (m_nbElements f) < unat t"
    using lt by (simp add: word_less_nat_alt)
  show "length (contents t (fst (push_elem t x (f, n)))) = length (contents t f @ [x])"
    using lt by (simp add: push_elem_grow_eq c)
  fix i
  assume "i < length (contents t (fst (push_elem t x (f, n))))"
  then have i: "i < Suc (unat (m_nbElements f))"
    using lt by (simp add: push_elem_grow_eq c)
  show "contents t (fst (push_elem t x (f, n))) ! i = (contents t f @ [x]) ! i"
  proof (cases "i < unat (m_nbElements f)")
    case True
    then have "(unat (m_readIdx f) + i) mod unat t \<noteq> unat (m_writeIdx f)"
      using mod_shift_neq [of i "unat (m_nbElements f)" "unat t" "unat (m_readIdx f)"] C nat(6)
      by simp
    then show ?thesis
      using True i lt
      by (simp add: push_elem_grow_eq c contents_def logical_def nth_append)
  next
    case False
    with i have "i = unat (m_nbElements f)" by simp
    then show ?thesis
      using lt nat
      by (simp add: push_elem_grow_eq c contents_def logical_def nth_append)
  qed
qed

lemma push_elem_contents_full:
  assumes inv: "Fifo_inv t f" and full: "\<not> m_nbElements f < t"
  shows "contents t (fst (push_elem t x (f, n))) = tl (contents t f) @ [x]"
proof (rule nth_equalityI)
  note nat = Fifo_inv_nat [OF inv]
  have ceq: "m_nbElements f = t" using full inv by (simp add: Fifo_inv_def)
  have w: "m_writeIdx f < t" using inv by (simp add: Fifo_inv_def)
  have wr: "unat (m_writeIdx f) = unat (m_readIdx f)"
    using nat ceq by simp
  have T: "0 < unat t" by (rule nat(1))
  show "length (contents t (fst (push_elem t x (f, n)))) = length (tl (contents t f) @ [x])"
    using full ceq T by (simp add: push_elem_full_eq)
  fix i
  assume "i < length (contents t (fst (push_elem t x (f, n))))"
  then have i: "i < unat t"
    using full ceq by (simp add: push_elem_full_eq)
  have idx: "(Suc (unat (m_readIdx f)) mod unat t + i) mod unat t = (unat (m_readIdx f) + Suc i) mod unat t"
    by (metis add_Suc add_Suc_right mod_add_left_eq)
  show "contents t (fst (push_elem t x (f, n))) ! i = (tl (contents t f) @ [x]) ! i"
  proof (cases "Suc i < unat t")
    case True
    have "(unat (m_readIdx f) + 0) mod unat t \<noteq> (unat (m_readIdx f) + Suc i) mod unat t"
      using True by (intro mod_shift_neq) simp_all
    then have "(unat (m_readIdx f) + Suc i) mod unat t \<noteq> unat (m_readIdx f)"
      using nat(2) by simp
    moreover have "i < unat t - Suc 0" using True by simp
    ultimately show ?thesis
      using True i full ceq w
      by (simp add: push_elem_full_eq contents_def logical_def nth_append nth_tl
          unat_inc_mod wr idx)
  next
    case False
    with i have "Suc i = unat t" by simp
    then have "(unat (m_readIdx f) + Suc i) mod unat t = unat (m_readIdx f)"
      using nat(2) by simp
    moreover have "\<not> i < unat t - Suc 0" "i - (unat t - Suc 0) = 0"
      using \<open>Suc i = unat t\<close> by simp_all
    ultimately show ?thesis
      using i full ceq w nat(2,5)
      by (simp add: push_elem_full_eq contents_def logical_def nth_append nth_tl
          unat_inc_mod wr idx)
  qed
qed


lemma length_lastn [simp]: "length (lastn k xs) = min k (length xs)"
  by (simp add: lastn_def)

lemma lastn_all: "length xs \<le> k \<Longrightarrow> lastn k xs = xs"
  by (simp add: lastn_def)

lemma lastn_lastn_append: "lastn k (lastn k xs @ ys) = lastn k (xs @ ys)"
proof (cases "length xs \<le> k")
  case True
  then show ?thesis by (simp add: lastn_all)
next
  case False
  then have "length xs - k + length ys = length xs + length ys - k" by simp
  with False show ?thesis by (simp add: lastn_def min_def add.commute)
qed

lemma push_elem_contents:
  assumes inv: "Fifo_inv t f"
  shows "contents t (fst (push_elem t x (f, n))) = lastn (unat t) (contents t f @ [x])"
proof (cases "m_nbElements f < t")
  case True
  then have "unat (m_nbElements f) < unat t" by (simp add: word_less_nat_alt)
  then have "lastn (unat t) (contents t f @ [x]) = contents t f @ [x]"
    by (simp add: lastn_all)
  with True inv show ?thesis by (simp add: push_elem_contents_grow)
next
  case False
  then have ceq: "m_nbElements f = t" using inv by (simp add: Fifo_inv_def)
  have "0 < unat t" using inv by (rule Fifo_inv_nat)
  then have "contents t f \<noteq> []" using ceq
    by (metis length_contents length_0_conv less_numeral_extra(3))
  moreover have "Suc 0 - unat t = 0" using \<open>0 < unat t\<close> by simp
  ultimately have "lastn (unat t) (contents t f @ [x]) = tl (contents t f) @ [x]"
    using ceq by (simp add: lastn_def drop_Suc)
  with False inv show ?thesis by (simp add: push_elem_contents_full)
qed

lemma push_loop_inv:
  "Fifo_inv t f \<Longrightarrow> Fifo_inv t (fst (push_loop t src (f, n)))"
proof (induction src arbitrary: f n)
  case Nil
  then show ?case by simp
next
  case (Cons x src)
  have "Fifo_inv t (fst (push_elem t x (f, n)))"
    using Cons.prems by (rule push_elem_inv)
  then have "Fifo_inv t (fst (push_loop t src (fst (push_elem t x (f, n)), snd (push_elem t x (f, n)))))"
    by (rule Cons.IH)
  then show ?case by simp
qed

lemma push_loop_contents:
  "Fifo_inv t f \<Longrightarrow>
     contents t (fst (push_loop t src (f, n))) = lastn (unat t) (contents t f @ src)"
proof (induction src arbitrary: f n)
  case Nil
  then have "unat (m_nbElements f) \<le> unat t" by (rule Fifo_inv_nat)
  then show ?case by (simp add: lastn_all)
next
  case (Cons x src)
  let ?s = "push_elem t x (f, n)"
  have inv': "Fifo_inv t (fst ?s)"
    using Cons.prems by (rule push_elem_inv)
  have "contents t (fst (push_loop t src (fst ?s, snd ?s)))
      = lastn (unat t) (contents t (fst ?s) @ src)"
    using inv' by (rule Cons.IH)
  also have "\<dots> = lastn (unat t) (lastn (unat t) (contents t f @ [x]) @ src)"
    using Cons.prems by (simp add: push_elem_contents)
  also have "\<dots> = lastn (unat t) ((contents t f @ [x]) @ src)"
    by (rule lastn_lastn_append)
  finally show ?case by simp
qed

lemma push_loop_copied:
  "Fifo_inv t f \<Longrightarrow>
     snd (push_loop t src (f, n))
       = n + of_nat (min (length src) (unat t - unat (m_nbElements f)))"
proof (induction src arbitrary: f n)
  case Nil
  then show ?case by simp
next
  case (Cons x src)
  let ?s = "push_elem t x (f, n)"
  have inv': "Fifo_inv t (fst ?s)"
    using Cons.prems by (rule push_elem_inv)
  have IH: "snd (push_loop t src (fst ?s, snd ?s))
      = snd ?s + of_nat (min (length src) (unat t - unat (m_nbElements (fst ?s))))"
    using inv' by (rule Cons.IH)
  show ?case
  proof (cases "m_nbElements f < t")
    case True
    then have C: "unat (m_nbElements f) < unat t" by (simp add: word_less_nat_alt)
    have c: "unat (m_nbElements f + 1) = Suc (unat (m_nbElements f))"
      using True by (rule unat_inc)
    have "min (length (x # src)) (unat t - unat (m_nbElements f))
        = Suc (min (length src) (unat t - Suc (unat (m_nbElements f))))"
      using C by simp
    then show ?thesis
      using IH True by (simp add: push_elem_grow_eq c)
  next
    case False
    then have "m_nbElements f = t" using Cons.prems by (simp add: Fifo_inv_def)
    then show ?thesis
      using IH False by (simp add: push_elem_full_eq)
  qed
qed

lemma Fifo_ctor_inv: "0 < t \<Longrightarrow> Fifo_inv t (Fifo_ctor t dflt)"
  by (simp add: Fifo_inv_def Fifo_ctor_def)

lemma Fifo_ctor_contents [simp]: "contents t (Fifo_ctor t dflt) = []"
  by (simp add: contents_def Fifo_ctor_def)

lemma push_overwrite_eq:
  "push t f src True = (snd (push_loop t src (f, 0)), fst (push_loop t src (f, 0)))"
  by (simp add: push_def)

lemma push_fits_eq:
  "length src \<le> unat (t - m_nbElements f) \<Longrightarrow>
     push t f src False = (snd (push_loop t src (f, 0)), fst (push_loop t src (f, 0)))"
  by (simp add: push_def)

lemma unat_copied:
  "unat (of_nat (min l (unat (t::'w::len word) - c)) :: 'w word) = min l (unat t - c)"
  by (rule le_unat_uoi [of _ t]) simp

lemma push_loop_count:
  assumes "Fifo_inv t f"
  shows "unat (m_nbElements (fst (push_loop t src (f, n))))
    = min (unat t) (unat (m_nbElements f) + length src)"
proof -
  have "length (contents t (fst (push_loop t src (f, n))))
      = length (lastn (unat t) (contents t f @ src))"
    using assms by (simp add: push_loop_contents)
  then show ?thesis by simp
qed

lemma inc_mod_neq:
  fixes r t :: "'w::len word"
  assumes "r < t" "1 < t"
  shows "(r + 1) mod t \<noteq> r"
proof
  assume "(r + 1) mod t = r"
  then have "unat ((r + 1) mod t) = unat r" by simp
  then have eq: "Suc (unat r) mod unat t = unat r"
    using assms(1) by (simp add: unat_inc_mod)
  have R: "unat r < unat t" and T: "1 < unat t"
    using assms by (simp_all add: word_less_nat_alt)
  show False
  proof (cases "Suc (unat r) < unat t")
    case True
    with eq show False by simp
  next
    case False
    with R have "Suc (unat r) = unat t" by simp
    with eq have "unat r = 0" by simp
    with \<open>Suc (unat r) = unat t\<close> T show False by simp
  qed
qed

lemma pull_loop_stop:
  "\<not> (0 < a \<and> 0 < m_nbElements f) \<Longrightarrow> pull_loop t f mem d a = (f, mem, a)"
  by (subst pull_loop.simps) auto

lemma pull_loop_step:
  "0 < a \<Longrightarrow> 0 < m_nbElements f \<Longrightarrow>
     pull_loop t f mem d a =
       pull_loop t (f\<lparr>m_readIdx := (m_readIdx f + 1) mod t, m_nbElements := m_nbElements f - 1\<rparr>)
         (mem(d := m_buffer f ! unat (m_readIdx f))) (d + 1) (a - 1)"
  by (subst pull_loop.simps) simp

lemma of_nat_pred:
  "0 < k \<Longrightarrow> (of_nat k :: 'w::len word) = of_nat (k - 1) + 1"
  by (cases k) simp_all

lemma pull_loop_closed:
  fixes t :: "'w::len word" and f :: "('a, 'w) Fifo"
  assumes "m_readIdx f < t"
  shows "pull_loop t f mem d a =
    (f\<lparr>m_readIdx := of_nat ((unat (m_readIdx f) + min (unat a) (unat (m_nbElements f))) mod unat t),
       m_nbElements := m_nbElements f - of_nat (min (unat a) (unat (m_nbElements f)))\<rparr>,
     (\<lambda>j. if d \<le> j \<and> j < d + min (unat a) (unat (m_nbElements f))
          then m_buffer f ! ((unat (m_readIdx f) + (j - d)) mod unat t) else mem j),
     a - of_nat (min (unat a) (unat (m_nbElements f))))"
  using assms
proof (induction t f mem d a rule: pull_loop.induct)
  case (1 t f mem d a)
  have R: "unat (m_readIdx f) < unat t"
    using "1.prems" by (simp add: word_less_nat_alt)
  show ?case
  proof (cases "0 < a \<and> 0 < m_nbElements f")
    case False
    then have "min (unat a) (unat (m_nbElements f)) = 0"
      by (auto simp: word_greater_zero_iff unat_eq_0 min_def)
    moreover have nk: "(d \<le> j \<and> j < d) \<longleftrightarrow> False" for j by auto
    ultimately show ?thesis
      using False R by (simp add: pull_loop_stop nk)
  next
    case True
    let ?k = "min (unat a) (unat (m_nbElements f))"
    let ?f1 = "f\<lparr>m_readIdx := (m_readIdx f + 1) mod t, m_nbElements := m_nbElements f - 1\<rparr>"
    have a: "unat (a - 1) = unat a - 1" and c: "unat (m_nbElements f - 1) = unat (m_nbElements f) - 1"
      using True by (simp_all add: unat_minus_one word_greater_zero_iff)
    have apos: "0 < unat a" and cpos: "0 < unat (m_nbElements f)"
      using True by (simp_all add: word_greater_zero_iff unat_gt_0)
    then have kpos: "0 < ?k" by simp
    have k1: "min (unat (a - 1)) (unat (m_nbElements ?f1)) = ?k - 1"
      using apos cpos by (simp add: a c min_def)
    have r1: "m_readIdx ?f1 < t"
      using "1.prems" by (simp add: inc_mod_less)
    have R1: "unat (m_readIdx ?f1) = Suc (unat (m_readIdx f)) mod unat t"
      using "1.prems" by (simp add: unat_inc_mod)
    have idx: "(Suc (unat (m_readIdx f)) mod unat t + (?k - 1)) mod unat t
        = (unat (m_readIdx f) + ?k) mod unat t"
    proof -
      have "(Suc (unat (m_readIdx f)) mod unat t + (?k - 1)) mod unat t
          = (Suc (unat (m_readIdx f)) + (?k - 1)) mod unat t"
        by (rule mod_add_left_eq)
      also have "Suc (unat (m_readIdx f)) + (?k - 1) = unat (m_readIdx f) + ?k"
        using kpos by simp
      finally show ?thesis .
    qed
    have memeq: "(\<lambda>j. if d + 1 \<le> j \<and> j < d + 1 + (?k - 1)
            then m_buffer f ! ((Suc (unat (m_readIdx f)) mod unat t + (j - (d + 1))) mod unat t)
            else (mem(d := m_buffer f ! unat (m_readIdx f))) j)
        = (\<lambda>j. if d \<le> j \<and> j < d + ?k
            then m_buffer f ! ((unat (m_readIdx f) + (j - d)) mod unat t) else mem j)"
    proof (rule ext)
      fix j
      show "(if d + 1 \<le> j \<and> j < d + 1 + (?k - 1)
            then m_buffer f ! ((Suc (unat (m_readIdx f)) mod unat t + (j - (d + 1))) mod unat t)
            else (mem(d := m_buffer f ! unat (m_readIdx f))) j)
        = (if d \<le> j \<and> j < d + ?k
            then m_buffer f ! ((unat (m_readIdx f) + (j - d)) mod unat t) else mem j)"
      proof (cases "d + 1 \<le> j \<and> j < d + 1 + (?k - 1)")
        case True
        then have "d \<le> j \<and> j < d + ?k" using kpos by simp
        moreover have "(Suc (unat (m_readIdx f)) mod unat t + (j - (d + 1))) mod unat t
            = (unat (m_readIdx f) + (j - d)) mod unat t"
        proof -
          have "(Suc (unat (m_readIdx f)) mod unat t + (j - (d + 1))) mod unat t
              = (Suc (unat (m_readIdx f)) + (j - (d + 1))) mod unat t"
            by (rule mod_add_left_eq)
          also have "Suc (unat (m_readIdx f)) + (j - (d + 1)) = unat (m_readIdx f) + (j - d)"
            using True by arith
          finally show ?thesis .
        qed
        ultimately show ?thesis using True by simp
      next
        case False
        show ?thesis
        proof (cases "j = d")
          case True
          then show ?thesis using kpos R by simp
        next
          case neq: False
          with False have no: "\<not> (d \<le> j \<and> j < d + ?k)" using kpos by auto
          show ?thesis
            unfolding if_not_P [OF False] if_not_P [OF no] using neq by simp
        qed
      qed
    qed
    have "pull_loop t f mem d a
        = pull_loop t ?f1 (mem(d := m_buffer f ! unat (m_readIdx f))) (d + 1) (a - 1)"
      using True by (simp add: pull_loop_step)
    also have "\<dots> =
      (?f1\<lparr>m_readIdx := of_nat ((unat (m_readIdx ?f1) + min (unat (a - 1)) (unat (m_nbElements ?f1))) mod unat t),
         m_nbElements := m_nbElements ?f1 - of_nat (min (unat (a - 1)) (unat (m_nbElements ?f1)))\<rparr>,
       (\<lambda>j. if d + 1 \<le> j \<and> j < d + 1 + min (unat (a - 1)) (unat (m_nbElements ?f1))
          then m_buffer ?f1 ! ((unat (m_readIdx ?f1) + (j - (d + 1))) mod unat t)
          else (mem(d := m_buffer f ! unat (m_readIdx f))) j),
       (a - 1) - of_nat (min (unat (a - 1)) (unat (m_nbElements ?f1))))"
      using True r1 by (intro "1.IH") simp_all
    also have "\<dots> =
      (f\<lparr>m_readIdx := of_nat ((unat (m_readIdx f) + ?k) mod unat t),
         m_nbElements := m_nbElements f - of_nat ?k\<rparr>,
       (\<lambda>j. if d \<le> j \<and> j < d + ?k
          then m_buffer f ! ((unat (m_readIdx f) + (j - d)) mod unat t) else mem j),
       a - of_nat ?k)"
    proof -
      have bf: "m_buffer ?f1 = m_buffer f" by simp
      have wk: "(of_nat ?k :: 'w word) = of_nat (?k - 1) + 1"
        using kpos by (rule of_nat_pred)
      have rec: "?f1\<lparr>m_readIdx := X, m_nbElements := m_nbElements ?f1 - of_nat (?k - 1)\<rparr>
          = f\<lparr>m_readIdx := X, m_nbElements := m_nbElements f - of_nat ?k\<rparr>" for X
        by (simp add: wk)
      have av: "(a - 1) - of_nat (?k - 1) = a - of_nat ?k"
        by (simp add: wk)
      show ?thesis
        unfolding k1 R1 idx bf memeq rec av ..
    qed
    finally show ?thesis .
  qed
qed


lemma pull_closed:
  fixes t :: "'w::len word" and f :: "('a, 'w) Fifo"
  assumes "m_readIdx f < t"
  shows "pull t f mem a =
    (of_nat (min (unat a) (unat (m_nbElements f))),
     (\<lambda>j. if j < min (unat a) (unat (m_nbElements f))
          then m_buffer f ! ((unat (m_readIdx f) + j) mod unat t) else mem j),
     f\<lparr>m_readIdx := of_nat ((unat (m_readIdx f) + min (unat a) (unat (m_nbElements f))) mod unat t),
       m_nbElements := m_nbElements f - of_nat (min (unat a) (unat (m_nbElements f)))\<rparr>)"
  using pull_loop_closed [OF assms, of mem 0 a] by (simp add: pull_def cong: if_cong)

lemma unat_of_nat_min_l: "unat (of_nat (min (unat (a::'w::len word)) c) :: 'w word) = min (unat a) c"
  by (rule le_unat_uoi [of _ a]) simp

lemma unat_of_nat_min_r: "unat (of_nat (min c (unat (a::'w::len word))) :: 'w word) = min c (unat a)"
  by (rule le_unat_uoi [of _ a]) simp

lemma unat_of_nat_mod: "0 < unat (t::'w::len word) \<Longrightarrow> unat (of_nat (n mod unat t) :: 'w word) = n mod unat t"
  by (rule le_unat_uoi [of _ t]) (simp add: less_imp_le)

lemma unat_sub_of_nat_min:
  "unat ((c::'w::len word) - of_nat (min k (unat c))) = unat c - min k (unat c)"
proof -
  have "unat (of_nat (min k (unat c)) :: 'w word) = min k (unat c)"
    by (rule unat_of_nat_min_r)
  then have "(of_nat (min k (unat c)) :: 'w word) \<le> c"
    by (simp add: word_le_nat_alt)
  then show ?thesis
    by (simp add: unat_sub unat_of_nat_min_r)
qed

lemma pull_nat:
  fixes t :: "'w::len word" and f :: "('a, 'w) Fifo"
  assumes "m_readIdx f < t"
  shows "unat (fst (pull t f mem a)) = min (unat a) (unat (m_nbElements f))"
    and "unat (m_readIdx (snd (snd (pull t f mem a))))
      = (unat (m_readIdx f) + min (unat a) (unat (m_nbElements f))) mod unat t"
    and "unat (m_nbElements (snd (snd (pull t f mem a))))
      = unat (m_nbElements f) - min (unat a) (unat (m_nbElements f))"
    and "m_buffer (snd (snd (pull t f mem a))) = m_buffer f"
    and "m_writeIdx (snd (snd (pull t f mem a))) = m_writeIdx f"
    and "fst (snd (pull t f mem a)) =
      (\<lambda>j. if j < min (unat a) (unat (m_nbElements f))
          then m_buffer f ! ((unat (m_readIdx f) + j) mod unat t) else mem j)"
proof -
  have T: "0 < unat t" using assms by (simp add: word_less_nat_alt)
  show "unat (fst (pull t f mem a)) = min (unat a) (unat (m_nbElements f))"
    by (simp add: pull_closed [OF assms] unat_of_nat_min_l)
  show "unat (m_readIdx (snd (snd (pull t f mem a))))
      = (unat (m_readIdx f) + min (unat a) (unat (m_nbElements f))) mod unat t"
    using T by (simp add: pull_closed [OF assms] unat_of_nat_mod)
  show "unat (m_nbElements (snd (snd (pull t f mem a))))
      = unat (m_nbElements f) - min (unat a) (unat (m_nbElements f))"
    by (simp add: pull_closed [OF assms] unat_sub_of_nat_min)
  show "m_buffer (snd (snd (pull t f mem a))) = m_buffer f"
    by (simp add: pull_closed [OF assms])
  show "m_writeIdx (snd (snd (pull t f mem a))) = m_writeIdx f"
    by (simp add: pull_closed [OF assms])
  show "fst (snd (pull t f mem a)) =
      (\<lambda>j. if j < min (unat a) (unat (m_nbElements f))
          then m_buffer f ! ((unat (m_readIdx f) + j) mod unat t) else mem j)"
    by (simp add: pull_closed [OF assms])
qed

lemma pull_inv:
  assumes inv: "Fifo_inv t f"
  shows "Fifo_inv t (snd (snd (pull t f mem a)))"
proof -
  note nat = Fifo_inv_nat [OF inv]
  have r: "m_readIdx f < t" using inv by (simp add: Fifo_inv_def)
  note p = pull_nat [OF r, of mem a]
  let ?k = "min (unat a) (unat (m_nbElements f))"
  have "((unat (m_readIdx f) + ?k) mod unat t + (unat (m_nbElements f) - ?k)) mod unat t
      = (unat (m_readIdx f) + ?k + (unat (m_nbElements f) - ?k)) mod unat t"
    by (rule mod_add_left_eq)
  also have "unat (m_readIdx f) + ?k + (unat (m_nbElements f) - ?k)
      = unat (m_readIdx f) + unat (m_nbElements f)"
    by simp
  finally have w: "((unat (m_readIdx f) + ?k) mod unat t + (unat (m_nbElements f) - ?k)) mod unat t
      = unat (m_writeIdx f)"
    using nat(6) by simp
  show ?thesis
    using nat p w
    by (simp add: Fifo_inv_def word_less_nat_alt word_le_nat_alt)
qed

lemma pull_contents:
  assumes r: "m_readIdx f < t"
  shows "contents t (snd (snd (pull t f mem a))) = drop (unat a) (contents t f)"
proof (rule nth_equalityI)
  note p = pull_nat [OF r, of mem a]
  let ?k = "min (unat a) (unat (m_nbElements f))"
  show "length (contents t (snd (snd (pull t f mem a)))) = length (drop (unat a) (contents t f))"
    using p(3) by simp
  fix i
  assume "i < length (contents t (snd (snd (pull t f mem a))))"
  then have i: "i < unat (m_nbElements f) - ?k" using p(3) by simp
  then have k: "?k = unat a" by simp
  have "((unat (m_readIdx f) + ?k) mod unat t + i) mod unat t
      = (unat (m_readIdx f) + (unat a + i)) mod unat t"
    unfolding k by (simp add: mod_add_left_eq add.assoc)
  then show "contents t (snd (snd (pull t f mem a))) ! i = drop (unat a) (contents t f) ! i"
    using i p by (simp add: contents_def logical_def)
qed

lemma pull_delivered:
  assumes r: "m_readIdx f < t"
  shows "delivered (pull t f mem a) = take (unat a) (contents t f)"
proof (rule nth_equalityI)
  note p = pull_nat [OF r, of mem a]
  show "length (delivered (pull t f mem a)) = length (take (unat a) (contents t f))"
    using p(1) by (simp add: delivered_def)
  fix i
  assume "i < length (delivered (pull t f mem a))"
  then have i: "i < min (unat a) (unat (m_nbElements f))"
    using p(1) by (simp add: delivered_def)
  then show "delivered (pull t f mem a) ! i = take (unat a) (contents t f) ! i"
    using p(1,6) by (simp add: delivered_def contents_def logical_def)
qed

lemma read_loop_stop:
  "\<not> (0 < a \<and> 0 < rem) \<Longrightarrow> read_loop t f ri rem mem d a = (mem, a)"
  by (subst read_loop.simps) auto

lemma read_loop_step:
  "0 < a \<Longrightarrow> 0 < rem \<Longrightarrow>
     read_loop t f ri rem mem d a =
       read_loop t f ((ri + 1) mod t) (rem - 1) (mem(d := m_buffer f ! unat ri)) (d + 1) (a - 1)"
  by (subst read_loop.simps) simp

lemma read_loop_pull_loop:
  "read_loop t f ri rem mem d a
     = snd (pull_loop t (f\<lparr>m_readIdx := ri, m_nbElements := rem\<rparr>) mem d a)"
proof (induction t f ri rem mem d a rule: read_loop.induct)
  case (1 t f ri rem mem d a)
  show ?case
  proof (cases "0 < a \<and> 0 < rem")
    case False
    then show ?thesis
      by (simp add: read_loop_stop pull_loop_stop)
  next
    case True
    then have "read_loop t f ri rem mem d a
        = read_loop t f ((ri + 1) mod t) (rem - 1) (mem(d := m_buffer f ! unat ri)) (d + 1) (a - 1)"
      by (simp add: read_loop_step)
    also have "\<dots> = snd (pull_loop t (f\<lparr>m_readIdx := (ri + 1) mod t, m_nbElements := rem - 1\<rparr>)
        (mem(d := m_buffer f ! unat ri)) (d + 1) (a - 1))"
      using True by (intro "1.IH") simp_all
    also have "\<dots> = snd (pull_loop t (f\<lparr>m_readIdx := ri, m_nbElements := rem\<rparr>) mem d a)"
      using True by (simp add: pull_loop_step)
    finally show ?thesis .
  qed
qed

lemma read_pull:
  "read t f mem a = (fst (pull t f mem a), fst (snd (pull t f mem a)), f)"
  by (simp add: read_def pull_def read_loop_pull_loop Let_def)

lemma read_twice:
  assumes r: "m_readIdx f < t"
  shows "read t f (fst (snd (read t f mem a))) a = read t f mem a"
proof -
  let ?k = "min (unat a) (unat (m_nbElements f))"
  let ?m = "\<lambda>j. if j < ?k then m_buffer f ! ((unat (m_readIdx f) + j) mod unat t) else mem j"
  have m1: "fst (snd (pull t f mem a)) = ?m"
    by (rule pull_nat(6) [OF r])
  have "fst (snd (pull t f ?m a)) 
      = (\<lambda>j. if j < ?k then m_buffer f ! ((unat (m_readIdx f) + j) mod unat t) else ?m j)"
    by (rule pull_nat(6) [OF r])
  also have "\<dots> = ?m" by (rule ext) simp
  finally have m2: "fst (snd (pull t f ?m a)) = ?m" .
  have ret: "fst (pull t f ?m a) = fst (pull t f mem a)"
    by (simp add: pull_closed [OF r])
  show ?thesis
    unfolding read_pull [of t f mem a] read_pull [of t f "fst (snd (fst (pull t f mem a), fst (snd (pull t f mem a)), f))" a]
    using m1 m2 ret by simp
qed

lemma read_repeat_same:
  assumes r: "m_readIdx f < t"
  shows "read_repeat n t f mem a = replicate n (read t f mem a)"
proof (induction n arbitrary: mem)
  case 0
  show ?case by simp
next
  case (Suc n)
  have st: "snd (snd (read t f mem a)) = f"
    by (simp add: read_pull)
  have "read_repeat (Suc n) t f mem a
      = read t f mem a # read_repeat n t f (fst (snd (read t f mem a))) a"
    by (simp add: st)
  also have "read_repeat n t f (fst (snd (read t f mem a))) a
      = replicate n (read t f (fst (snd (read t f mem a))) a)"
    by (rule Suc.IH)
  also have "read t f (fst (snd (read t f mem a))) a = read t f mem a"
    using r by (rule read_twice)
  finally show ?case by simp
qed

lemma inc_mod_of_nat:
  fixes r t :: "'w::len word"
  assumes "r < t"
  shows "(r + 1) mod t = of_nat (Suc (unat r) mod unat t)"
proof -
  have T: "0 < unat t" using assms by (simp add: word_less_nat_alt)
  have "unat ((r + 1) mod t) = unat (of_nat (Suc (unat r) mod unat t) :: 'w word)"
    using assms T by (simp add: unat_inc_mod unat_of_nat_mod)
  then show ?thesis by (simp add: word_unat_eq_iff)
qed

lemma pop_back_pull:
  fixes t :: "'w::len word" and f :: "('a, 'w) Fifo"
  assumes r: "m_readIdx f < t"
  shows "snd (snd (pop_back t f dest)) = snd (snd (pull t f mem 1))"
proof (cases "m_nbElements f = 0")
  case True
  have "unat (m_readIdx f) mod unat t = unat (m_readIdx f)"
    using r by (simp add: word_less_nat_alt)
  with True show ?thesis
    by (simp add: pop_back_def pull_closed [OF r])
next
  case False
  then have "0 < unat (m_nbElements f)" by (simp add: unat_gt_0)
  then have k: "min (Suc 0) (unat (m_nbElements f)) = Suc 0" by simp
  show ?thesis
    using False by (simp add: pop_back_def pull_closed [OF r] k inc_mod_of_nat [OF r])
qed

lemma pop_back_inv:
  assumes "Fifo_inv t f"
  shows "Fifo_inv t (snd (snd (pop_back t f dest)))"
proof -
  have r: "m_readIdx f < t" using assms by (simp add: Fifo_inv_def)
  show ?thesis
    using pull_inv [OF assms, of undefined 1] by (simp add: pop_back_pull [OF r, of dest undefined])
qed

lemma pop_back_contents:
  assumes r: "m_readIdx f < t"
  shows "contents t (snd (snd (pop_back t f dest))) = tl (contents t f)"
  using pull_contents [OF r, of undefined 1]
  by (simp add: pop_back_pull [OF r, of dest undefined] drop_Suc)

lemma push_inv:
  assumes "Fifo_inv t f"
  shows "Fifo_inv t (snd (push t f src overwrite))"
  using assms push_loop_inv [OF assms, of src 0] by (simp add: push_def)

lemma push_var_inv:
  assumes "Fifo_inv t f"
  shows "Fifo_inv t (snd (push_var t f var overwrite))"
  using push_inv [OF assms, of "[var]" overwrite] by (simp add: push_var_def push_ptr_def)

lemma read_state: "snd (snd (read t f mem a)) = f"
  by (simp add: read_pull)

lemma reset_inv:
  assumes "Fifo_inv t f"
  shows "Fifo_inv t (reset f)"
  using assms by (auto simp: Fifo_inv_def reset_def word_less_nat_alt)

lemma drop_fifo_inv:
  fixes t :: "'w::len word" and f :: "('a, 'w) Fifo"
  assumes inv: "Fifo_inv t f" and fits: "2 * unat t \<le> 2 ^ LENGTH('w)"
  shows "Fifo_inv t (snd (drop_fifo t f sz))"
proof -
  note nat = Fifo_inv_nat [OF inv]
  let ?d = "min (m_nbElements f) sz"
  have dle: "?d \<le> m_nbElements f" by simp
  then have D: "unat ?d \<le> unat (m_nbElements f)" by (simp add: word_le_nat_alt)
  have c: "unat (m_nbElements f - ?d) = unat (m_nbElements f) - unat ?d"
    using dle by (rule unat_sub)
  have "unat (m_readIdx f) + unat ?d < 2 ^ LENGTH('w)"
    using nat(2,4) D fits by linarith
  then have s: "unat (m_readIdx f + ?d) = unat (m_readIdx f) + unat ?d"
    by (simp add: unat_add_lem)
  have "((unat (m_readIdx f) + unat ?d) mod unat t + (unat (m_nbElements f) - unat ?d)) mod unat t
      = (unat (m_readIdx f) + unat ?d + (unat (m_nbElements f) - unat ?d)) mod unat t"
    by (rule mod_add_left_eq)
  also have "unat (m_readIdx f) + unat ?d + (unat (m_nbElements f) - unat ?d)
      = unat (m_readIdx f) + unat (m_nbElements f)"
    using D by simp
  finally have w: "((unat (m_readIdx f) + unat ?d) mod unat t + (unat (m_nbElements f) - unat ?d)) mod unat t
      = unat (m_writeIdx f)"
    using nat(6) by simp
  have "Fifo_inv t (f\<lparr>m_nbElements := m_nbElements f - ?d, m_readIdx := (m_readIdx f + ?d) mod t\<rparr>)"
    using nat w D
    by (simp add: Fifo_inv_def word_less_nat_alt word_le_nat_alt unat_mod c s)
  then show ?thesis
    by (simp add: drop_fifo_def Let_def)
qed

text \<open>
  The bound on \<open>t_size\<close> is needed by \<open>drop\<close> alone: in a 3-bit \<open>size_t\<close> with
  capacity 5, dropping all of a full buffer whose read index is 4 wraps the sum
  \<open>4 + 5\<close> to 1.
\<close>

lemma drop_fifo_wraps_narrow:
  "snd (drop_fifo (5 :: 3 word)
     \<lparr>m_buffer = [1, 2, 3, 4, 5 :: int], m_readIdx = 4, m_writeIdx = 4, m_nbElements = 5\<rparr> 5)
   = \<lparr>m_buffer = [1, 2, 3, 4, 5], m_readIdx = 1, m_writeIdx = 4, m_nbElements = 0\<rparr>"
  by (simp add: drop_fifo_def)

lemma apply_call_inv:
  fixes t :: "'w::len word" and f :: "('a, 'w) Fifo"
  assumes inv: "Fifo_inv t f" and fits: "2 * unat t \<le> 2 ^ LENGTH('w)"
  shows "Fifo_inv t (apply_call t f c)"
proof (cases c)
  case (Push src overwrite)
  then show ?thesis using inv by (simp add: push_inv)
next
  case (PushVar var overwrite)
  then show ?thesis using inv by (simp add: push_var_inv)
next
  case (Pop dest)
  then show ?thesis using inv by (simp add: pop_back_inv)
next
  case (Pull mem availSpace)
  then show ?thesis using inv by (simp add: pull_inv)
next
  case (Read mem availSpace)
  then show ?thesis using inv by (simp add: read_state)
next
  case (Drop sz)
  then show ?thesis using inv fits by (simp add: drop_fifo_inv)
next
  case Reset
  then show ?thesis using inv by (simp add: reset_inv)
qed

lemma run_calls_inv:
  fixes t :: "'w::len word" and f :: "('a, 'w) Fifo"
  assumes fits: "2 * unat t \<le> 2 ^ LENGTH('w)"
  shows "Fifo_inv t f \<Longrightarrow> Fifo_inv t (run_calls t f cs)"
proof (induction cs arbitrary: f)
  case Nil
  then show ?case by simp
next
  case (Cons c cs)
  have "Fifo_inv t (apply_call t f c)"
    using Cons.prems fits by (rule apply_call_inv)
  then have "Fifo_inv t (run_calls t (apply_call t f c) cs)"
    by (rule Cons.IH)
  then show ?case by simp
qed

lemma ctor_loop_inv:
  "Fifo_inv t f \<Longrightarrow> Fifo_inv t (ctor_loop t initList f)"
proof (induction initList arbitrary: f)
  case Nil
  then show ?case by simp
next
  case (Cons item initList)
  have "Fifo_inv t (snd (push_var t f item False))"
    using Cons.prems by (rule push_var_inv)
  then have "Fifo_inv t (ctor_loop t initList (snd (push_var t f item False)))"
    by (rule Cons.IH)
  then show ?case by simp
qed

lemma Fifo_ctor_list_inv: "0 < t \<Longrightarrow> Fifo_inv t (Fifo_ctor_list t dflt initList)"
  by (simp add: Fifo_ctor_list_def ctor_loop_inv Fifo_ctor_inv)

lemma eq_loop_stop:
  "\<not> i < m_nbElements f \<Longrightarrow> eq_loop t f other idx otherIdx i"
  by (subst eq_loop.simps) simp

lemma eq_loop_step:
  "i < m_nbElements f \<Longrightarrow>
     eq_loop t f other idx otherIdx i \<longleftrightarrow>
       m_buffer f ! unat idx = m_buffer other ! unat otherIdx
       \<and> eq_loop t f other ((idx + 1) mod t) ((otherIdx + 1) mod t) (i + 1)"
  by (subst eq_loop.simps) simp

lemma all_less_Suc_shift: "(\<forall>j < Suc n. P j) \<longleftrightarrow> P 0 \<and> (\<forall>j < n. P (Suc j))"
  by (auto simp: less_Suc_eq_0_disj)

lemma eq_loop_iff:
  fixes t :: "'w::len word" and f other :: "('a, 'w) Fifo"
  assumes "idx < t" "otherIdx < t"
  shows "eq_loop t f other idx otherIdx i \<longleftrightarrow>
    (\<forall>j < unat (m_nbElements f) - unat i.
       m_buffer f ! ((unat idx + j) mod unat t) = m_buffer other ! ((unat otherIdx + j) mod unat t))"
  using assms
proof (induction t f other idx otherIdx i rule: eq_loop.induct)
  case (1 t f other idx otherIdx i)
  show ?case
  proof (cases "i < m_nbElements f")
    case False
    then have "unat (m_nbElements f) - unat i = 0"
      by (simp add: word_less_nat_alt)
    with False show ?thesis by (simp add: eq_loop_stop)
  next
    case True
    have I: "unat (i + 1) = Suc (unat i)" using True by (rule unat_inc)
    have lt: "unat i < unat (m_nbElements f)" using True by (simp add: word_less_nat_alt)
    then have n: "unat (m_nbElements f) - unat i = Suc (unat (m_nbElements f) - Suc (unat i))"
      by simp
    have X: "unat idx < unat t" and Y: "unat otherIdx < unat t"
      using "1.prems" by (simp_all add: word_less_nat_alt)
    have sh: "(Suc (unat x) mod unat t + j) mod unat t = (unat x + Suc j) mod unat t" for x :: "'w word" and j
    proof -
      have "(Suc (unat x) mod unat t + j) mod unat t = (Suc (unat x) + j) mod unat t"
        by (rule mod_add_left_eq)
      then show ?thesis by simp
    qed
    show ?thesis
    proof (cases "m_buffer f ! unat idx = m_buffer other ! unat otherIdx")
      case False
      then have "\<not> eq_loop t f other idx otherIdx i"
        by (simp only: eq_loop_step [OF True]) simp
      moreover have "\<not> (\<forall>j < unat (m_nbElements f) - unat i.
          m_buffer f ! ((unat idx + j) mod unat t) = m_buffer other ! ((unat otherIdx + j) mod unat t))"
      proof
        assume "\<forall>j < unat (m_nbElements f) - unat i.
          m_buffer f ! ((unat idx + j) mod unat t) = m_buffer other ! ((unat otherIdx + j) mod unat t)"
        then have "0 < unat (m_nbElements f) - unat i \<longrightarrow>
            m_buffer f ! ((unat idx + 0) mod unat t) = m_buffer other ! ((unat otherIdx + 0) mod unat t)"
          by (rule spec)
        with lt X Y False show False by simp
      qed
      ultimately show ?thesis by simp
    next
      case eq: True
      have "eq_loop t f other idx otherIdx i
          \<longleftrightarrow> eq_loop t f other ((idx + 1) mod t) ((otherIdx + 1) mod t) (i + 1)"
        using eq by (simp only: eq_loop_step [OF True]) simp
      also have "\<dots> \<longleftrightarrow> (\<forall>j < unat (m_nbElements f) - unat (i + 1).
          m_buffer f ! ((unat ((idx + 1) mod t) + j) mod unat t)
            = m_buffer other ! ((unat ((otherIdx + 1) mod t) + j) mod unat t))"
        using True eq "1.prems" by (intro "1.IH") (simp_all add: inc_mod_less)
      also have "\<dots> \<longleftrightarrow> (\<forall>j < unat (m_nbElements f) - Suc (unat i).
          m_buffer f ! ((unat idx + Suc j) mod unat t)
            = m_buffer other ! ((unat otherIdx + Suc j) mod unat t))"
        using "1.prems" by (simp only: I unat_inc_mod sh)
      also have "\<dots> \<longleftrightarrow> (\<forall>j < unat (m_nbElements f) - unat i.
          m_buffer f ! ((unat idx + j) mod unat t) = m_buffer other ! ((unat otherIdx + j) mod unat t))"
        unfolding n all_less_Suc_shift using eq X Y by simp
      finally show ?thesis .
    qed
  qed
qed

lemma contents_eq_iff:
  "contents t f = contents t g \<longleftrightarrow>
     unat (m_nbElements f) = unat (m_nbElements g)
     \<and> (\<forall>i < unat (m_nbElements f). logical t f i = logical t g i)"
  by (auto simp: list_eq_iff_nth_eq nth_contents)

lemma push_fits:
  fixes t :: "'w::len word" and f :: "('a, 'w) Fifo"
  assumes inv: "Fifo_inv t f" and fits: "unat (m_nbElements f) + length src \<le> unat t"
  shows "contents t (snd (push t f src False)) = contents t f @ src"
    and "fst (push t f src False) = of_nat (length src)"
proof -
  have c: "m_nbElements f \<le> t" using inv by (simp add: Fifo_inv_def)
  have free: "unat (t - m_nbElements f) = unat t - unat (m_nbElements f)"
    using c by (rule unat_sub)
  have run: "push t f src False = (snd (push_loop t src (f, 0)), fst (push_loop t src (f, 0)))"
    using fits by (intro push_fits_eq) (simp add: free)
  have "lastn (unat t) (contents t f @ src) = contents t f @ src"
    using fits by (simp add: lastn_all)
  then show "contents t (snd (push t f src False)) = contents t f @ src"
    using push_loop_contents [OF inv, of src 0] by (simp add: run)
  have "min (length src) (unat t - unat (m_nbElements f)) = length src"
    using fits by simp
  then show "fst (push t f src False) = of_nat (length src)"
    using push_loop_copied [OF inv, of src 0] by (simp add: run)
qed

lemma push_all_contents:
  fixes t :: "'w::len word" and f :: "('a, 'w) Fifo"
  shows "Fifo_inv t f \<Longrightarrow> unat (m_nbElements f) + sum_list (map length srcs) \<le> unat t \<Longrightarrow>
    Fifo_inv t (push_all t f srcs) \<and> contents t (push_all t f srcs) = contents t f @ concat srcs"
proof (induction srcs arbitrary: f)
  case Nil
  then show ?case by simp
next
  case (Cons src srcs)
  let ?f = "snd (push t f src False)"
  have fits: "unat (m_nbElements f) + length src \<le> unat t"
    using Cons.prems(2) by simp
  have inv': "Fifo_inv t ?f"
    using Cons.prems(1) by (rule push_inv)
  have c': "contents t ?f = contents t f @ src"
    using Cons.prems(1) fits by (rule push_fits)
  have "length (contents t ?f) = length (contents t f @ src)"
    by (simp only: c')
  then have n': "unat (m_nbElements ?f) = unat (m_nbElements f) + length src"
    by simp
  have "Fifo_inv t (push_all t ?f srcs)
      \<and> contents t (push_all t ?f srcs) = contents t ?f @ concat srcs"
    using inv' Cons.prems(2) by (intro Cons.IH) (simp_all add: n')
  then show ?case by (simp add: c')
qed

lemma pull_all_contents:
  "Fifo_inv t f \<Longrightarrow>
     pull_all t f reqs = take (sum_list (map (\<lambda>q. unat (snd q)) reqs)) (contents t f)"
proof (induction reqs arbitrary: f)
  case Nil
  then show ?case by simp
next
  case (Cons q reqs)
  obtain mem a where q: "q = (mem, a)" by (cases q)
  have r: "m_readIdx f < t" using Cons.prems by (simp add: Fifo_inv_def)
  have inv': "Fifo_inv t (snd (snd (pull t f mem a)))"
    using Cons.prems by (rule pull_inv)
  have "pull_all t (snd (snd (pull t f mem a))) reqs
      = take (sum_list (map (\<lambda>q. unat (snd q)) reqs)) (contents t (snd (snd (pull t f mem a))))"
    using inv' by (rule Cons.IH)
  then show ?case
    by (simp add: q pull_delivered [OF r] pull_contents [OF r] take_add)
qed

text \<open>
  \<open>operator[]\<close> reads the logical position of its argument, as long as the sum of the
  read index and the argument does not wrap.
\<close>

lemma subscript_logical:
  fixes t :: "'w::len word" and f :: "('a, 'w) Fifo"
  assumes "unat (m_readIdx f) + unat idx < 2 ^ LENGTH('w)"
  shows "subscript t f idx = logical t f (unat idx)"
proof -
  have "unat (m_readIdx f + idx) = unat (m_readIdx f) + unat idx"
    using assms by (simp add: unat_add_lem)
  then show ?thesis
    by (simp add: subscript_def logical_def unat_mod)
qed

section \<open>The claims\<close>

text \<open>
  C1. A \<open>push\<close> without overwrite whose source is longer than the free space
  (\<open>t_size\<close> minus the count, in a buffer whose count does not exceed \<open>t_size\<close>)
  returns 0 and leaves the whole buffer (array, both indices, count) as it was:
  there is no partial push.
\<close>

theorem push_declined:
  assumes "m_nbElements f \<le> t_size"
    and "length src > unat t_size - unat (m_nbElements f)"
  shows "push t_size f src False = (0, f)"
  using assms by (simp add: push_def unat_sub)

theorem push_declined_witness:
  "m_nbElements \<lparr>m_buffer = [1, 2, 3, 4, 5 :: int], m_readIdx = 2, m_writeIdx = 1,
       m_nbElements = 4 :: 64 word\<rparr> \<le> 5
   \<and> length [6, 7 :: int] > unat (5 :: 64 word)
       - unat (m_nbElements \<lparr>m_buffer = [1, 2, 3, 4, 5 :: int], m_readIdx = 2, m_writeIdx = 1,
           m_nbElements = 4 :: 64 word\<rparr>)
   \<and> push 5 \<lparr>m_buffer = [1, 2, 3, 4, 5 :: int], m_readIdx = 2, m_writeIdx = 1,
         m_nbElements = 4 :: 64 word\<rparr> [6, 7] False
      = (0, \<lparr>m_buffer = [1, 2, 3, 4, 5 :: int], m_readIdx = 2, m_writeIdx = 1,
         m_nbElements = 4 :: 64 word\<rparr>)"
  using push_declined [of "\<lparr>m_buffer = [1, 2, 3, 4, 5 :: int], m_readIdx = 2, m_writeIdx = 1,
      m_nbElements = 4 :: 64 word\<rparr>" 5 "[6, 7]"]
  by simp




text \<open>
  C3. \<open>push\<close> with overwrite, on a buffer that satisfies the invariant. An element
  written while the count is \<open>t_size\<close> goes to the slot of the oldest element, the read
  index becomes the new write index, the count and the copied counter stay; the logical
  content loses its head and gains the element at the end. The value returned by
  \<open>push\<close> is the minimum of the source length and the free space before the call, the
  count afterwards is the minimum of \<open>t_size\<close> and the old count plus the source
  length, the logical content is the last \<open>t_size\<close> elements of the old content
  followed by the source, and the invariant is kept. On the capacity-5 buffer constructed
  from \<open>{1,2,3,4,5}\<close>, pushing \<open>{11,12,13,14,15}\<close> returns 0 and leaves
  \<open>{11,12,13,14,15}\<close> with count 5.
\<close>

theorem push_overwrite:
  fixes t_size :: "'w::len word" and f :: "('a, 'w) Fifo"
  assumes inv: "Fifo_inv t_size f"
  shows "(m_nbElements f = t_size \<longrightarrow>
            push_elem t_size x (f, n)
              = (f\<lparr>m_buffer := (m_buffer f)[unat (m_readIdx f) := x],
                   m_writeIdx := (m_writeIdx f + 1) mod t_size,
                   m_readIdx := (m_writeIdx f + 1) mod t_size\<rparr>, n)
            \<and> contents t_size (fst (push_elem t_size x (f, n))) = tl (contents t_size f) @ [x])
    \<and> unat (fst (push t_size f src True))
        = min (length src) (unat t_size - unat (m_nbElements f))
    \<and> unat (m_nbElements (snd (push t_size f src True)))
        = min (unat t_size) (unat (m_nbElements f) + length src)
    \<and> contents t_size (snd (push t_size f src True))
        = lastn (unat t_size) (contents t_size f @ src)
    \<and> Fifo_inv t_size (snd (push t_size f src True))
    \<and> push (5 :: 64 word) (Fifo_ctor_list 5 (0 :: int) [1, 2, 3, 4, 5]) [11, 12, 13, 14, 15] True
        = (0, \<lparr>m_buffer = [11, 12, 13, 14, 15], m_readIdx = 0, m_writeIdx = 0, m_nbElements = 5\<rparr>)"
proof -
  have A: "m_nbElements f = t_size \<longrightarrow>
            push_elem t_size x (f, n)
              = (f\<lparr>m_buffer := (m_buffer f)[unat (m_readIdx f) := x],
                   m_writeIdx := (m_writeIdx f + 1) mod t_size,
                   m_readIdx := (m_writeIdx f + 1) mod t_size\<rparr>, n)
            \<and> contents t_size (fst (push_elem t_size x (f, n))) = tl (contents t_size f) @ [x]"
  proof
    assume full: "m_nbElements f = t_size"
    then have nlt: "\<not> m_nbElements f < t_size" by simp
    have "m_writeIdx f = m_readIdx f"
      using inv full by (rule Fifo_inv_full_widx)
    then show "push_elem t_size x (f, n)
              = (f\<lparr>m_buffer := (m_buffer f)[unat (m_readIdx f) := x],
                   m_writeIdx := (m_writeIdx f + 1) mod t_size,
                   m_readIdx := (m_writeIdx f + 1) mod t_size\<rparr>, n)
            \<and> contents t_size (fst (push_elem t_size x (f, n))) = tl (contents t_size f) @ [x]"
      using push_elem_full_eq [OF nlt, of x n] push_elem_contents_full [OF inv nlt, of x n]
      by simp
  qed
  have B: "unat (fst (push t_size f src True))
        = min (length src) (unat t_size - unat (m_nbElements f))"
    using push_loop_copied [OF inv, of src 0] by (simp add: push_overwrite_eq unat_copied)
  have C: "unat (m_nbElements (snd (push t_size f src True)))
        = min (unat t_size) (unat (m_nbElements f) + length src)"
    using push_loop_count [OF inv, of src 0] by (simp add: push_overwrite_eq)
  have D: "contents t_size (snd (push t_size f src True))
        = lastn (unat t_size) (contents t_size f @ src)"
    using push_loop_contents [OF inv, of src 0] by (simp add: push_overwrite_eq)
  have E: "Fifo_inv t_size (snd (push t_size f src True))"
    using push_loop_inv [OF inv, of src 0] by (simp add: push_overwrite_eq)
  have F: "push (5 :: 64 word) (Fifo_ctor_list 5 (0 :: int) [1, 2, 3, 4, 5]) [11, 12, 13, 14, 15] True
        = (0, \<lparr>m_buffer = [11, 12, 13, 14, 15], m_readIdx = 0, m_writeIdx = 0, m_nbElements = 5\<rparr>)"
    by code_simp
  from A B C D E F show ?thesis by blast
qed


theorem push_overwrite_witness:
  "Fifo_inv (5 :: 64 word)
     \<lparr>m_buffer = [4, 5, 1, 2, 3 :: int], m_readIdx = 2, m_writeIdx = 2, m_nbElements = 5\<rparr>
   \<and> push_elem (5 :: 64 word) 11
        (\<lparr>m_buffer = [4, 5, 1, 2, 3 :: int], m_readIdx = 2, m_writeIdx = 2, m_nbElements = 5\<rparr>, 0)
       = (\<lparr>m_buffer = [4, 5, 11, 2, 3], m_readIdx = 3, m_writeIdx = 3, m_nbElements = 5\<rparr>, 0)
   \<and> contents (5 :: 64 word)
        \<lparr>m_buffer = [4, 5, 11, 2, 3 :: int], m_readIdx = 3, m_writeIdx = 3, m_nbElements = 5\<rparr>
       = [2, 3, 4, 5, 11]
   \<and> unat (fst (push (5 :: 64 word)
        \<lparr>m_buffer = [4, 5, 1, 2, 3 :: int], m_readIdx = 2, m_writeIdx = 2, m_nbElements = 5\<rparr>
        [11, 12] True)) = 0
   \<and> contents (5 :: 64 word) (snd (push (5 :: 64 word)
        \<lparr>m_buffer = [4, 5, 1, 2, 3 :: int], m_readIdx = 2, m_writeIdx = 2, m_nbElements = 5\<rparr>
        [11, 12] True)) = [3, 4, 5, 11, 12]"
proof -
  let ?f = "\<lparr>m_buffer = [4, 5, 1, 2, 3 :: int], m_readIdx = 2, m_writeIdx = 2,
    m_nbElements = 5 :: 64 word\<rparr>"
  have inv: "Fifo_inv 5 ?f"
    by (simp add: Fifo_inv_def)
  have c: "contents 5 ?f = [1, 2, 3, 4, 5]"
    by (simp add: contents_def logical_def upt_rec)
  have c': "contents (5 :: 64 word)
        \<lparr>m_buffer = [4, 5, 11, 2, 3 :: int], m_readIdx = 3, m_writeIdx = 3, m_nbElements = 5\<rparr>
       = [2, 3, 4, 5, 11]"
    by (simp add: contents_def logical_def upt_rec)
  show ?thesis
    using inv c c' push_overwrite [OF inv, of 11 0 "[11, 12]"]
    by (simp add: lastn_def)
qed

text \<open>
  C10. On a full buffer that satisfies the invariant, \<open>push(v, true)\<close> returns false,
  although it stores \<open>v\<close> in the slot of the oldest element and advances both indices:
  the logical content loses its head and gains \<open>v\<close> at the end, and for a capacity
  above 1 the buffer afterwards differs from the buffer before.
\<close>

theorem push_var_overwrite_full:
  fixes t_size :: "'w::len word" and f :: "('a, 'w) Fifo"
  assumes inv: "Fifo_inv t_size f" and full: "m_nbElements f = t_size"
  shows "fst (push_var t_size f v True) = False
    \<and> snd (push_var t_size f v True)
        = f\<lparr>m_buffer := (m_buffer f)[unat (m_readIdx f) := v],
            m_writeIdx := (m_readIdx f + 1) mod t_size,
            m_readIdx := (m_readIdx f + 1) mod t_size\<rparr>
    \<and> contents t_size (snd (push_var t_size f v True)) = tl (contents t_size f) @ [v]
    \<and> (1 < t_size \<longrightarrow> snd (push_var t_size f v True) \<noteq> f)"
proof -
  have nlt: "\<not> m_nbElements f < t_size" using full by simp
  have wr: "m_writeIdx f = m_readIdx f"
    using inv full by (rule Fifo_inv_full_widx)
  have r: "m_readIdx f < t_size" using inv by (simp add: Fifo_inv_def)
  have step: "push_elem t_size v (f, 0)
      = (f\<lparr>m_buffer := (m_buffer f)[unat (m_readIdx f) := v],
            m_writeIdx := (m_readIdx f + 1) mod t_size,
            m_readIdx := (m_readIdx f + 1) mod t_size\<rparr>, 0)"
    using push_elem_full_eq [OF nlt, of v 0] wr by simp
  have res: "push_var t_size f v True
      = (False, f\<lparr>m_buffer := (m_buffer f)[unat (m_readIdx f) := v],
            m_writeIdx := (m_readIdx f + 1) mod t_size,
            m_readIdx := (m_readIdx f + 1) mod t_size\<rparr>)"
    by (simp add: push_var_def push_ptr_def push_overwrite_eq step)
  have cont: "contents t_size (snd (push_var t_size f v True)) = tl (contents t_size f) @ [v]"
    using push_elem_contents_full [OF inv nlt, of v 0]
    by (simp add: push_var_def push_ptr_def push_overwrite_eq)
  have changed: "1 < t_size \<longrightarrow> snd (push_var t_size f v True) \<noteq> f"
  proof
    assume "1 < t_size"
    with r have "(m_readIdx f + 1) mod t_size \<noteq> m_readIdx f"
      by (rule inc_mod_neq)
    then have "m_readIdx (snd (push_var t_size f v True)) \<noteq> m_readIdx f"
      by (simp add: res)
    then show "snd (push_var t_size f v True) \<noteq> f" by auto
  qed
  from res cont changed show ?thesis by simp
qed

theorem push_var_overwrite_full_witness:
  "Fifo_inv (5 :: 64 word)
     \<lparr>m_buffer = [4, 5, 1, 2, 3 :: int], m_readIdx = 2, m_writeIdx = 2, m_nbElements = 5\<rparr>
   \<and> m_nbElements
       \<lparr>m_buffer = [4, 5, 1, 2, 3 :: int], m_readIdx = 2, m_writeIdx = 2, m_nbElements = 5 :: 64 word\<rparr> = 5
   \<and> push_var (5 :: 64 word)
        \<lparr>m_buffer = [4, 5, 1, 2, 3 :: int], m_readIdx = 2, m_writeIdx = 2, m_nbElements = 5\<rparr> 11 True
       = (False, \<lparr>m_buffer = [4, 5, 11, 2, 3], m_readIdx = 3, m_writeIdx = 3, m_nbElements = 5\<rparr>)
   \<and> contents (5 :: 64 word)
        \<lparr>m_buffer = [4, 5, 11, 2, 3 :: int], m_readIdx = 3, m_writeIdx = 3, m_nbElements = 5\<rparr>
       = [2, 3, 4, 5, 11]"
proof -
  let ?f = "\<lparr>m_buffer = [4, 5, 1, 2, 3 :: int], m_readIdx = 2, m_writeIdx = 2,
    m_nbElements = 5 :: 64 word\<rparr>"
  have inv: "Fifo_inv 5 ?f"
    by (simp add: Fifo_inv_def)
  have full: "m_nbElements ?f = 5" by simp
  have c: "contents 5 ?f = [1, 2, 3, 4, 5]"
    by (simp add: contents_def logical_def upt_rec)
  have res: "push_var 5 ?f 11 True
       = (False, \<lparr>m_buffer = [4, 5, 11, 2, 3], m_readIdx = 3, m_writeIdx = 3, m_nbElements = 5\<rparr>)"
    using push_var_overwrite_full [OF inv full, of 11]
    by (simp add: prod_eq_iff)
  have c': "contents (5 :: 64 word)
        \<lparr>m_buffer = [4, 5, 11, 2, 3 :: int], m_readIdx = 3, m_writeIdx = 3, m_nbElements = 5\<rparr>
       = [2, 3, 4, 5, 11]"
    by (simp add: contents_def logical_def upt_rec)
  show ?thesis
    using inv c c' res by simp
qed

text \<open>
  C6. In a buffer whose read index is below \<open>t_size\<close>, \<open>pull\<close> with any \<open>availSpace\<close>
  returns \<open>k = min(availSpace, count)\<close>; offset \<open>j < k\<close> of the destination receives
  the element of slot \<open>(readIdx + j) mod t_size\<close> and every other offset keeps its value;
  the read index advances by \<open>k\<close> modulo \<open>t_size\<close>, the count drops by \<open>k\<close>, the array
  and the write index stay. What was delivered is the first \<open>k\<close> elements of the logical
  content, what remains is the rest, and the invariant is kept. With \<open>availSpace = 0\<close>
  the call returns 0 and changes neither the destination nor the buffer; with a count of
  4 and \<open>availSpace = 10\<close> it returns 4 and leaves a count of 0.
\<close>

theorem pull_spec:
  fixes t_size :: "'w::len word" and f :: "('a, 'w) Fifo"
  assumes r: "m_readIdx f < t_size"
  shows "unat (fst (pull t_size f mem availSpace)) = min (unat availSpace) (unat (m_nbElements f))
    \<and> fst (snd (pull t_size f mem availSpace))
        = (\<lambda>j. if j < min (unat availSpace) (unat (m_nbElements f))
               then m_buffer f ! ((unat (m_readIdx f) + j) mod unat t_size) else mem j)
    \<and> unat (m_readIdx (snd (snd (pull t_size f mem availSpace))))
        = (unat (m_readIdx f) + min (unat availSpace) (unat (m_nbElements f))) mod unat t_size
    \<and> unat (m_nbElements (snd (snd (pull t_size f mem availSpace))))
        = unat (m_nbElements f) - min (unat availSpace) (unat (m_nbElements f))
    \<and> m_buffer (snd (snd (pull t_size f mem availSpace))) = m_buffer f
    \<and> m_writeIdx (snd (snd (pull t_size f mem availSpace))) = m_writeIdx f
    \<and> delivered (pull t_size f mem availSpace) = take (unat availSpace) (contents t_size f)
    \<and> contents t_size (snd (snd (pull t_size f mem availSpace)))
        = drop (unat availSpace) (contents t_size f)
    \<and> (Fifo_inv t_size f \<longrightarrow> Fifo_inv t_size (snd (snd (pull t_size f mem availSpace))))
    \<and> pull t_size f mem 0 = (0, mem, f)
    \<and> (unat (m_nbElements f) = 4 \<and> unat availSpace = 10 \<longrightarrow>
         unat (fst (pull t_size f mem availSpace)) = 4
         \<and> m_nbElements (snd (snd (pull t_size f mem availSpace))) = 0)"
proof -
  note p = pull_nat [OF r, of mem availSpace]
  have "unat (m_readIdx f) mod unat t_size = unat (m_readIdx f)"
    using r by (simp add: word_less_nat_alt)
  then have zero: "pull t_size f mem 0 = (0, mem, f)"
    by (simp add: pull_closed [OF r])
  have drain: "unat (m_nbElements f) = 4 \<and> unat availSpace = 10 \<longrightarrow>
         unat (fst (pull t_size f mem availSpace)) = 4
         \<and> m_nbElements (snd (snd (pull t_size f mem availSpace))) = 0"
    using p(1,3) by (auto simp: unat_eq_0)
  show ?thesis
    using p zero drain pull_delivered [OF r, of mem availSpace]
      pull_contents [OF r, of mem availSpace] pull_inv [of t_size f mem availSpace]
    by simp
qed

theorem pull_spec_witness:
  "m_readIdx \<lparr>m_buffer = [14, 15, 2, 11, 12, 13 :: int], m_readIdx = 3, m_writeIdx = 1,
       m_nbElements = 4 :: 64 word\<rparr> < 6
   \<and> unat (fst (pull (6 :: 64 word)
        \<lparr>m_buffer = [14, 15, 2, 11, 12, 13 :: int], m_readIdx = 3, m_writeIdx = 1, m_nbElements = 4\<rparr>
        (\<lambda>_. 0) 10)) = 4
   \<and> map (fst (snd (pull (6 :: 64 word)
        \<lparr>m_buffer = [14, 15, 2, 11, 12, 13 :: int], m_readIdx = 3, m_writeIdx = 1, m_nbElements = 4\<rparr>
        (\<lambda>_. 0) 10))) [0, 1, 2, 3, 4, 5] = [11, 12, 13, 14, 0, 0]
   \<and> unat (m_readIdx (snd (snd (pull (6 :: 64 word)
        \<lparr>m_buffer = [14, 15, 2, 11, 12, 13 :: int], m_readIdx = 3, m_writeIdx = 1, m_nbElements = 4\<rparr>
        (\<lambda>_. 0) 10)))) = 1
   \<and> m_nbElements (snd (snd (pull (6 :: 64 word)
        \<lparr>m_buffer = [14, 15, 2, 11, 12, 13 :: int], m_readIdx = 3, m_writeIdx = 1, m_nbElements = 4\<rparr>
        (\<lambda>_. 0) 10))) = 0"
proof -
  let ?f = "\<lparr>m_buffer = [14, 15, 2, 11, 12, 13 :: int], m_readIdx = 3, m_writeIdx = 1,
    m_nbElements = 4 :: 64 word\<rparr>"
  have r: "m_readIdx ?f < 6" by simp
  show ?thesis
    using r pull_spec [OF r, of "\<lambda>_. 0" 10]
    by simp
qed

text \<open>
  C7. For every buffer and every \<open>availSpace\<close>, \<open>read\<close> returns what \<open>pull\<close> returns
  and leaves the destination as \<open>pull\<close> leaves it, and hands the buffer back unchanged
  (array, both indices and count). When the read index is below \<open>t_size\<close>, any number
  of \<open>read\<close> calls in a row with the same destination and \<open>availSpace\<close> all have the
  result of the first.
\<close>

theorem read_spec:
  fixes t_size :: "'w::len word" and f :: "('a, 'w) Fifo"
  shows "fst (read t_size f mem availSpace) = fst (pull t_size f mem availSpace)
    \<and> fst (snd (read t_size f mem availSpace)) = fst (snd (pull t_size f mem availSpace))
    \<and> snd (snd (read t_size f mem availSpace)) = f
    \<and> (m_readIdx f < t_size \<longrightarrow>
         read_repeat n t_size f mem availSpace = replicate n (read t_size f mem availSpace))"
  using read_repeat_same [of f t_size n mem availSpace]
  by (simp add: read_pull)

theorem read_spec_witness:
  "unat (fst (read (4 :: 64 word)
       \<lparr>m_buffer = [3, 0, 1, 2 :: int], m_readIdx = 1, m_writeIdx = 1, m_nbElements = 4\<rparr>
       (\<lambda>_. 170) 10)) = 4
   \<and> map (fst (snd (read (4 :: 64 word)
       \<lparr>m_buffer = [3, 0, 1, 2 :: int], m_readIdx = 1, m_writeIdx = 1, m_nbElements = 4\<rparr>
       (\<lambda>_. 170) 10))) [0, 1, 2, 3, 4] = [0, 1, 2, 3, 170]
   \<and> snd (snd (read (4 :: 64 word)
       \<lparr>m_buffer = [3, 0, 1, 2 :: int], m_readIdx = 1, m_writeIdx = 1, m_nbElements = 4\<rparr>
       (\<lambda>_. 170) 10))
       = \<lparr>m_buffer = [3, 0, 1, 2], m_readIdx = 1, m_writeIdx = 1, m_nbElements = 4\<rparr>
   \<and> m_readIdx \<lparr>m_buffer = [3, 0, 1, 2 :: int], m_readIdx = 1, m_writeIdx = 1,
       m_nbElements = 4 :: 64 word\<rparr> < 4
   \<and> read_repeat 3 (4 :: 64 word)
       \<lparr>m_buffer = [3, 0, 1, 2 :: int], m_readIdx = 1, m_writeIdx = 1, m_nbElements = 4\<rparr>
       (\<lambda>_. 170) 10
       = [read (4 :: 64 word)
           \<lparr>m_buffer = [3, 0, 1, 2 :: int], m_readIdx = 1, m_writeIdx = 1, m_nbElements = 4\<rparr>
           (\<lambda>_. 170) 10,
          read (4 :: 64 word)
           \<lparr>m_buffer = [3, 0, 1, 2 :: int], m_readIdx = 1, m_writeIdx = 1, m_nbElements = 4\<rparr>
           (\<lambda>_. 170) 10,
          read (4 :: 64 word)
           \<lparr>m_buffer = [3, 0, 1, 2 :: int], m_readIdx = 1, m_writeIdx = 1, m_nbElements = 4\<rparr>
           (\<lambda>_. 170) 10]"
proof -
  let ?f = "\<lparr>m_buffer = [3, 0, 1, 2 :: int], m_readIdx = 1, m_writeIdx = 1,
    m_nbElements = 4 :: 64 word\<rparr>"
  have r: "m_readIdx ?f < 4" by simp
  have p: "unat (fst (pull 4 ?f (\<lambda>_. 170) 10)) = 4"
    "map (fst (snd (pull 4 ?f (\<lambda>_. 170) 10))) [0, 1, 2, 3, 4] = [0, 1, 2, 3, 170]"
    by (simp_all add: pull_nat [OF r])
  have three: "replicate 3 x = [x, x, x]" for x :: "64 word \<times> (nat \<Rightarrow> int) \<times> (int, 64) Fifo"
    by (simp add: numeral_3_eq_3)
  show ?thesis
    using r p read_spec [of 4 ?f "\<lambda>_. 170" 10 3]
    by (simp add: three)
qed

text \<open>
  C8. \<open>pop_back\<close> on a count of 0 returns false and hands back the destination and the
  buffer as they were. On any other count it returns true with the element of slot
  \<open>readIdx\<close> in the destination, the read index replaced by \<open>(readIdx + 1) % t_size\<close>
  and the count decremented. For a non-empty buffer whose read index is below \<open>t_size\<close>
  this reads: the new read index is \<open>(readIdx + 1) mod t_size\<close> in the natural numbers,
  the count is one less, the destination holds the head of the logical content and the
  buffer keeps its tail. The invariant is kept.
\<close>

theorem pop_back_spec:
  fixes t_size :: "'w::len word" and f :: "('a, 'w) Fifo"
  shows "(m_nbElements f = 0 \<longrightarrow> pop_back t_size f dest = (False, dest, f))
    \<and> (m_nbElements f \<noteq> 0 \<longrightarrow>
         pop_back t_size f dest
           = (True, m_buffer f ! unat (m_readIdx f),
              f\<lparr>m_readIdx := (m_readIdx f + 1) mod t_size, m_nbElements := m_nbElements f - 1\<rparr>))
    \<and> (m_nbElements f \<noteq> 0 \<and> m_readIdx f < t_size \<longrightarrow>
         unat (m_readIdx (snd (snd (pop_back t_size f dest))))
           = (unat (m_readIdx f) + 1) mod unat t_size
         \<and> unat (m_nbElements (snd (snd (pop_back t_size f dest)))) = unat (m_nbElements f) - 1
         \<and> fst (snd (pop_back t_size f dest)) = hd (contents t_size f)
         \<and> contents t_size (snd (snd (pop_back t_size f dest))) = tl (contents t_size f))
    \<and> (Fifo_inv t_size f \<longrightarrow> Fifo_inv t_size (snd (snd (pop_back t_size f dest))))"
proof -
  have A: "m_nbElements f = 0 \<longrightarrow> pop_back t_size f dest = (False, dest, f)"
    by (simp add: pop_back_def)
  have B: "m_nbElements f \<noteq> 0 \<longrightarrow>
         pop_back t_size f dest
           = (True, m_buffer f ! unat (m_readIdx f),
              f\<lparr>m_readIdx := (m_readIdx f + 1) mod t_size, m_nbElements := m_nbElements f - 1\<rparr>)"
    by (simp add: pop_back_def)
  have C: "m_nbElements f \<noteq> 0 \<and> m_readIdx f < t_size \<longrightarrow>
         unat (m_readIdx (snd (snd (pop_back t_size f dest))))
           = (unat (m_readIdx f) + 1) mod unat t_size
         \<and> unat (m_nbElements (snd (snd (pop_back t_size f dest)))) = unat (m_nbElements f) - 1
         \<and> fst (snd (pop_back t_size f dest)) = hd (contents t_size f)
         \<and> contents t_size (snd (snd (pop_back t_size f dest))) = tl (contents t_size f)"
  proof
    assume h: "m_nbElements f \<noteq> 0 \<and> m_readIdx f < t_size"
    then have ne: "m_nbElements f \<noteq> 0" and r: "m_readIdx f < t_size" by simp_all
    have pos: "0 < unat (m_nbElements f)" using ne by (simp add: unat_gt_0)
    have R: "unat (m_readIdx f) < unat t_size" using r by (simp add: word_less_nat_alt)
    have "contents t_size f \<noteq> []"
      using pos by (metis length_contents length_0_conv less_numeral_extra(3))
    then have "hd (contents t_size f) = contents t_size f ! 0"
      by (simp add: hd_conv_nth)
    also have "\<dots> = m_buffer f ! unat (m_readIdx f)"
      using pos R by (simp add: contents_def logical_def)
    finally have hd: "hd (contents t_size f) = m_buffer f ! unat (m_readIdx f)" .
    show "unat (m_readIdx (snd (snd (pop_back t_size f dest))))
           = (unat (m_readIdx f) + 1) mod unat t_size
         \<and> unat (m_nbElements (snd (snd (pop_back t_size f dest)))) = unat (m_nbElements f) - 1
         \<and> fst (snd (pop_back t_size f dest)) = hd (contents t_size f)
         \<and> contents t_size (snd (snd (pop_back t_size f dest))) = tl (contents t_size f)"
      using ne r hd pop_back_contents [OF r, of dest]
      by (simp add: pop_back_def unat_inc_mod unat_minus_one)
  qed
  have D: "Fifo_inv t_size f \<longrightarrow> Fifo_inv t_size (snd (snd (pop_back t_size f dest)))"
    by (simp add: pop_back_inv)
  from A B C D show ?thesis by blast
qed

theorem pop_back_spec_witness:
  "pop_back (5 :: 64 word) (Fifo_ctor 5 (0 :: int)) 99 = (False, 99, Fifo_ctor 5 0)
   \<and> pop_back (5 :: 64 word)
        \<lparr>m_buffer = [6, 7, 3, 4, 5 :: int], m_readIdx = 4, m_writeIdx = 2, m_nbElements = 3\<rparr> 99
       = (True, 5, \<lparr>m_buffer = [6, 7, 3, 4, 5], m_readIdx = 0, m_writeIdx = 2, m_nbElements = 2\<rparr>)
   \<and> contents (5 :: 64 word)
        \<lparr>m_buffer = [6, 7, 3, 4, 5 :: int], m_readIdx = 4, m_writeIdx = 2, m_nbElements = 3\<rparr>
       = [5, 6, 7]
   \<and> contents (5 :: 64 word) (snd (snd (pop_back (5 :: 64 word)
        \<lparr>m_buffer = [6, 7, 3, 4, 5 :: int], m_readIdx = 4, m_writeIdx = 2, m_nbElements = 3\<rparr> 99)))
       = [6, 7]
   \<and> Fifo_inv (5 :: 64 word)
        \<lparr>m_buffer = [6, 7, 3, 4, 5 :: int], m_readIdx = 4, m_writeIdx = 2, m_nbElements = 3\<rparr>
   \<and> Fifo_inv (5 :: 64 word) (snd (snd (pop_back (5 :: 64 word)
        \<lparr>m_buffer = [6, 7, 3, 4, 5 :: int], m_readIdx = 4, m_writeIdx = 2, m_nbElements = 3\<rparr> 99)))"
proof -
  let ?f = "\<lparr>m_buffer = [6, 7, 3, 4, 5 :: int], m_readIdx = 4, m_writeIdx = 2,
    m_nbElements = 3 :: 64 word\<rparr>"
  have inv: "Fifo_inv 5 ?f"
    by (simp add: Fifo_inv_def)
  have c: "contents 5 ?f = [5, 6, 7]"
    by (simp add: contents_def logical_def upt_rec)
  let ?f' = "\<lparr>m_buffer = [6, 7, 3, 4, 5 :: int], m_readIdx = 0, m_writeIdx = 2,
    m_nbElements = 2 :: 64 word\<rparr>"
  have res: "pop_back 5 ?f 99 = (True, 5, ?f')"
    using pop_back_spec [of ?f 5 99] by simp
  have c': "contents 5 ?f' = [6, 7]"
    by (simp add: contents_def logical_def upt_rec)
  have inv': "Fifo_inv 5 ?f'"
    by (simp add: Fifo_inv_def)
  have e: "pop_back (5 :: 64 word) (Fifo_ctor 5 (0 :: int)) 99 = (False, 99, Fifo_ctor 5 0)"
    using pop_back_spec [of "Fifo_ctor 5 0 :: (int, 64) Fifo" 5 99] by (simp add: Fifo_ctor_def)
  show ?thesis
    by (simp add: res e c c' inv inv')
qed

text \<open>
  C5. Let the capacity be positive and let twice the capacity fit the range of \<open>size_t\<close>
  (an array of \<open>t_size\<close> elements is an object, and no object has as many bytes as half
  the address space; \<open>drop\<close> adds the number of dropped elements to the read index
  before it reduces the sum modulo \<open>t_size\<close>). Then the buffer reached from either constructor by any sequence
  of \<open>push\<close>, \<open>pop_back\<close>, \<open>pull\<close>, \<open>read\<close>, \<open>drop\<close> and \<open>reset\<close> calls has a count of at
  most \<open>t_size\<close>, both indices below \<open>t_size\<close>, the write index equal to
  \<open>(readIdx + count) mod t_size\<close> when the count is below \<open>t_size\<close>, and equal to the
  read index when the count is \<open>t_size\<close>.
\<close>

theorem reachable_invariant:
  fixes t_size :: "'w::len word" and dflt :: 'a
  assumes pos: "0 < t_size" and fits: "2 * unat t_size \<le> 2 ^ LENGTH('w)"
    and start: "f0 = Fifo_ctor t_size dflt \<or> f0 = Fifo_ctor_list t_size dflt initList"
    and f: "f = run_calls t_size f0 calls"
  shows "0 \<le> unat (m_nbElements f) \<and> m_nbElements f \<le> t_size
    \<and> m_readIdx f < t_size \<and> m_writeIdx f < t_size
    \<and> (m_nbElements f < t_size \<longrightarrow>
         unat (m_writeIdx f) = (unat (m_readIdx f) + unat (m_nbElements f)) mod unat t_size)
    \<and> (m_nbElements f = t_size \<longrightarrow> m_writeIdx f = m_readIdx f)"
proof -
  have "Fifo_inv t_size f0"
    using start pos by (auto simp: Fifo_ctor_inv Fifo_ctor_list_inv)
  then have inv: "Fifo_inv t_size f"
    unfolding f using fits by (intro run_calls_inv)
  then have "m_nbElements f = t_size \<longrightarrow> m_writeIdx f = m_readIdx f"
    by (simp add: Fifo_inv_full_widx)
  with inv show ?thesis
    by (simp add: Fifo_inv_def)
qed


theorem reachable_invariant_witness:
  "(0 :: 64 word) < 5 \<and> 2 * unat (5 :: 64 word) \<le> 2 ^ LENGTH(64)
   \<and> run_calls (5 :: 64 word) (Fifo_ctor_list 5 (0 :: int) [1, 2, 3])
        [Push [4, 5] False, Push [6, 7] True, Pop 0, Drop 2, Pull (\<lambda>_. 0) 1, Read (\<lambda>_. 0) 9,
         PushVar 8 False]
       = \<lparr>m_buffer = [6, 7, 8, 4, 5], m_readIdx = 1, m_writeIdx = 3, m_nbElements = 2\<rparr>
   \<and> (2 :: 64 word) \<le> 5 \<and> (1 :: 64 word) < 5 \<and> (3 :: 64 word) < 5
   \<and> unat (3 :: 64 word) = (unat (1 :: 64 word) + unat (2 :: 64 word)) mod unat (5 :: 64 word)
   \<and> run_calls (5 :: 64 word) (Fifo_ctor 5 (0 :: int)) [Push [1, 2, 3, 4, 5] False, Push [6, 7] True]
       = \<lparr>m_buffer = [6, 7, 3, 4, 5], m_readIdx = 2, m_writeIdx = 2, m_nbElements = 5\<rparr>"
proof -
  let ?calls = "[Push [4, 5] False, Push [6, 7] True, Pop 0, Drop 2, Pull (\<lambda>_. 0) 1,
    Read (\<lambda>_. 0) 9, PushVar 8 False] :: (int, 64 word) call list"
  let ?f = "\<lparr>m_buffer = [6, 7, 8, 4, 5 :: int], m_readIdx = 1, m_writeIdx = 3,
    m_nbElements = 2 :: 64 word\<rparr>"
  let ?g = "\<lparr>m_buffer = [6, 7, 3, 4, 5 :: int], m_readIdx = 2, m_writeIdx = 2,
    m_nbElements = 5 :: 64 word\<rparr>"
  have pos: "(0 :: 64 word) < 5" by simp
  have fits: "2 * unat (5 :: 64 word) \<le> 2 ^ LENGTH(64)" by simp
  have run: "?f = run_calls 5 (Fifo_ctor_list 5 0 [1, 2, 3]) ?calls"
    by code_simp
  have run': "?g = run_calls 5 (Fifo_ctor 5 0) [Push [1, 2, 3, 4, 5] False, Push [6, 7] True]"
    by code_simp
  have "m_nbElements ?f \<le> 5 \<and> m_readIdx ?f < 5 \<and> m_writeIdx ?f < 5
      \<and> unat (m_writeIdx ?f) = (unat (m_readIdx ?f) + unat (m_nbElements ?f)) mod unat (5 :: 64 word)"
    using reachable_invariant [OF pos fits _ run, where dflt = 0 and initList = "[1, 2, 3]"]
    by simp
  moreover have "m_writeIdx ?g = m_readIdx ?g"
    using reachable_invariant [OF pos fits _ run', where dflt = 0 and initList = "[]"]
    by simp
  ultimately show ?thesis
    using pos fits run [symmetric] run' [symmetric] by simp
qed

text \<open>
  C9. For two buffers of the same type and capacity whose read indices are below
  \<open>t_size\<close>, \<open>operator==\<close> is true exactly when the counts are equal and the elements at
  every logical position below the count are equal, that is, exactly when the logical
  contents are the same list; the indices themselves and the slots outside the logical
  range play no part. So the buffer constructed from \<open>{1,2,3}\<close> equals the buffer
  constructed from \<open>{0,0,0,0}\<close>, overwritten with \<open>{1,2,3}\<close> and pulled twice,
  whose read index is 4.
\<close>

theorem operator_eq_spec:
  fixes t_size :: "'w::len word" and f other :: "('a, 'w) Fifo"
  assumes "m_readIdx f < t_size" and "m_readIdx other < t_size"
  shows "(operator_eq t_size f other \<longleftrightarrow>
           m_nbElements f = m_nbElements other
           \<and> (\<forall>i < unat (m_nbElements f). logical t_size f i = logical t_size other i))
    \<and> (operator_eq t_size f other \<longleftrightarrow> contents t_size f = contents t_size other)"
proof -
  have A: "operator_eq t_size f other \<longleftrightarrow>
           m_nbElements f = m_nbElements other
           \<and> (\<forall>i < unat (m_nbElements f). logical t_size f i = logical t_size other i)"
    using eq_loop_iff [OF assms, of f other 0]
    by (auto simp: operator_eq_def logical_def)
  have "operator_eq t_size f other \<longleftrightarrow> contents t_size f = contents t_size other"
    unfolding A contents_eq_iff by (simp add: word_unat_eq_iff)
  with A show ?thesis by simp
qed

theorem operator_eq_spec_witness:
  "m_readIdx (Fifo_ctor_list (5 :: 64 word) (0 :: int) [1, 2, 3]) < 5
   \<and> m_readIdx (snd (snd (pull 5
         (snd (push 5 (Fifo_ctor_list (5 :: 64 word) (0 :: int) [0, 0, 0, 0]) [1, 2, 3] True))
         (\<lambda>_. 0) 2))) < 5
   \<and> m_readIdx (Fifo_ctor_list (5 :: 64 word) (0 :: int) [1, 2, 3]) = 0
   \<and> m_readIdx (snd (snd (pull 5
         (snd (push 5 (Fifo_ctor_list (5 :: 64 word) (0 :: int) [0, 0, 0, 0]) [1, 2, 3] True))
         (\<lambda>_. 0) 2))) = 4
   \<and> operator_eq 5 (Fifo_ctor_list (5 :: 64 word) (0 :: int) [1, 2, 3])
        (snd (snd (pull 5
          (snd (push 5 (Fifo_ctor_list (5 :: 64 word) (0 :: int) [0, 0, 0, 0]) [1, 2, 3] True))
          (\<lambda>_. 0) 2)))
   \<and> \<not> operator_eq 5 (Fifo_ctor_list (5 :: 64 word) (0 :: int) [1, 2, 3])
        (Fifo_ctor_list (5 :: 64 word) (0 :: int) [1, 2, 4])"
proof -
  let ?f = "\<lparr>m_buffer = [1, 2, 3, 0, 0 :: int], m_readIdx = 0, m_writeIdx = 3,
    m_nbElements = 3 :: 64 word\<rparr>"
  let ?g = "\<lparr>m_buffer = [2, 3, 0, 0, 1 :: int], m_readIdx = 4, m_writeIdx = 2,
    m_nbElements = 3 :: 64 word\<rparr>"
  let ?h = "\<lparr>m_buffer = [1, 2, 4, 0, 0 :: int], m_readIdx = 0, m_writeIdx = 3,
    m_nbElements = 3 :: 64 word\<rparr>"
  have f: "Fifo_ctor_list (5 :: 64 word) (0 :: int) [1, 2, 3] = ?f"
    by code_simp
  have g: "snd (snd (pull 5
      (snd (push 5 (Fifo_ctor_list (5 :: 64 word) (0 :: int) [0, 0, 0, 0]) [1, 2, 3] True))
      (\<lambda>_. 0) 2)) = ?g"
    by code_simp
  have h: "Fifo_ctor_list (5 :: 64 word) (0 :: int) [1, 2, 4] = ?h"
    by code_simp
  have rf: "m_readIdx ?f < 5" and rg: "m_readIdx ?g < 5" and rh: "m_readIdx ?h < 5"
    by simp_all
  have cf: "contents 5 ?f = [1, 2, 3]" and cg: "contents 5 ?g = [1, 2, 3]"
    and ch: "contents 5 ?h = [1, 2, 4]"
    by (simp_all add: contents_def logical_def upt_rec)
  have eq: "operator_eq 5 ?f ?g"
    using operator_eq_spec [OF rf rg, THEN conjunct2] cf cg by simp
  have neq: "\<not> operator_eq 5 ?f ?h"
    using operator_eq_spec [OF rf rh, THEN conjunct2] cf ch by simp
  show ?thesis
    unfolding f g h using eq neq by simp
qed

text \<open>
  C4. Start from any empty buffer that satisfies the invariant, wherever its two indices
  stand (the freshly constructed buffer of a positive capacity is one), push any spans
  without overwrite whose lengths add up to at most the capacity, then pull with any
  requests. What the pulls deliver, call after call, is the concatenation of the pushed
  spans cut to the total of the requests: the pushed elements in the order they were
  pushed, all of them once the requests cover them.
\<close>

theorem fifo_order:
  fixes t_size :: "'w::len word" and f :: "('a, 'w) Fifo" and dflt :: 'a
  assumes inv: "Fifo_inv t_size f" and empty: "m_nbElements f = 0"
    and fits: "sum_list (map length srcs) \<le> unat t_size"
  shows "pull_all t_size (push_all t_size f srcs) reqs
      = take (sum_list (map (\<lambda>q. unat (snd q)) reqs)) (concat srcs)
    \<and> (length (concat srcs) \<le> sum_list (map (\<lambda>q. unat (snd q)) reqs) \<longrightarrow>
         pull_all t_size (push_all t_size f srcs) reqs = concat srcs)
    \<and> pull_all t_size (push_all t_size (Fifo_ctor t_size dflt) srcs) reqs
      = take (sum_list (map (\<lambda>q. unat (snd q)) reqs)) (concat srcs)
    \<and> (length (concat srcs) \<le> sum_list (map (\<lambda>q. unat (snd q)) reqs) \<longrightarrow>
         pull_all t_size (push_all t_size (Fifo_ctor t_size dflt) srcs) reqs = concat srcs)"
proof -
  have order: "pull_all t_size (push_all t_size g srcs) reqs
      = take (sum_list (map (\<lambda>q. unat (snd q)) reqs)) (concat srcs)"
    if g: "Fifo_inv t_size g" "m_nbElements g = 0" for g :: "('a, 'w) Fifo"
  proof -
    have none: "contents t_size g = []"
      using g(2) by (simp add: contents_def)
    have "unat (m_nbElements g) + sum_list (map length srcs) \<le> unat t_size"
      using fits g(2) by simp
    with g(1) have "Fifo_inv t_size (push_all t_size g srcs)
        \<and> contents t_size (push_all t_size g srcs) = contents t_size g @ concat srcs"
      by (rule push_all_contents)
    then show ?thesis
      by (simp add: pull_all_contents none)
  qed
  have pos: "0 < t_size"
    using inv by (auto simp: Fifo_inv_def word_less_nat_alt word_greater_zero_iff unat_gt_0)
  have "Fifo_inv t_size (Fifo_ctor t_size dflt :: ('a, 'w) Fifo)"
    using pos by (rule Fifo_ctor_inv)
  moreover have "m_nbElements (Fifo_ctor t_size dflt :: ('a, 'w) Fifo) = 0"
    by (simp add: Fifo_ctor_def)
  ultimately have "pull_all t_size (push_all t_size (Fifo_ctor t_size dflt) srcs) reqs
      = take (sum_list (map (\<lambda>q. unat (snd q)) reqs)) (concat srcs)"
    by (rule order)
  with order [OF inv empty] show ?thesis by simp
qed

theorem fifo_order_witness:
  "run_calls (5 :: 64 word) (Fifo_ctor 5 (0 :: int)) [Push [7, 7, 7, 7] False, Drop 4]
     = \<lparr>m_buffer = [7, 7, 7, 7, 0], m_readIdx = 4, m_writeIdx = 4, m_nbElements = 0\<rparr>
   \<and> Fifo_inv (5 :: 64 word)
       \<lparr>m_buffer = [7, 7, 7, 7, 0 :: int], m_readIdx = 4, m_writeIdx = 4, m_nbElements = 0\<rparr>
   \<and> sum_list (map length [[1, 2], [3], [4, 5 :: int]]) \<le> unat (5 :: 64 word)
   \<and> push_all (5 :: 64 word)
       \<lparr>m_buffer = [7, 7, 7, 7, 0 :: int], m_readIdx = 4, m_writeIdx = 4, m_nbElements = 0\<rparr>
       [[1, 2], [3], [4, 5]]
     = \<lparr>m_buffer = [2, 3, 4, 5, 1], m_readIdx = 4, m_writeIdx = 4, m_nbElements = 5\<rparr>
   \<and> pull_all (5 :: 64 word) (push_all 5
       \<lparr>m_buffer = [7, 7, 7, 7, 0 :: int], m_readIdx = 4, m_writeIdx = 4, m_nbElements = 0\<rparr>
       [[1, 2], [3], [4, 5]])
        [(\<lambda>_. 0, 2), (\<lambda>_. 0, 0), (\<lambda>_. 0, 10)] = [1, 2, 3, 4, 5]
   \<and> pull_all (5 :: 64 word) (push_all 5
       \<lparr>m_buffer = [7, 7, 7, 7, 0 :: int], m_readIdx = 4, m_writeIdx = 4, m_nbElements = 0\<rparr>
       [[1, 2], [3], [4, 5]])
        [(\<lambda>_. 0, 2), (\<lambda>_. 0, 1)] = [1, 2, 3]
   \<and> pull_all (5 :: 64 word) (push_all 5 (Fifo_ctor 5 0) [[1, 2], [3], [4, 5 :: int]])
        [(\<lambda>_. 0, 2), (\<lambda>_. 0, 0), (\<lambda>_. 0, 10)] = [1, 2, 3, 4, 5]"
proof -
  let ?f = "\<lparr>m_buffer = [7, 7, 7, 7, 0 :: int], m_readIdx = 4, m_writeIdx = 4,
    m_nbElements = 0 :: 64 word\<rparr>"
  have reach: "run_calls (5 :: 64 word) (Fifo_ctor 5 (0 :: int)) [Push [7, 7, 7, 7] False, Drop 4] = ?f"
    by code_simp
  have wrapped: "push_all 5 ?f [[1, 2], [3], [4, 5]]
      = \<lparr>m_buffer = [2, 3, 4, 5, 1], m_readIdx = 4, m_writeIdx = 4, m_nbElements = 5\<rparr>"
    by code_simp
  have inv: "Fifo_inv 5 ?f"
    by (simp add: Fifo_inv_def)
  have empty: "m_nbElements ?f = 0" by simp
  have fits: "sum_list (map length [[1, 2], [3], [4, 5 :: int]]) \<le> unat (5 :: 64 word)" by simp
  have all: "pull_all 5 (push_all 5 ?f [[1, 2], [3], [4, 5]])
        [(\<lambda>_. 0, 2), (\<lambda>_. 0, 0), (\<lambda>_. 0, 10)] = [1, 2, 3, 4, 5]"
    and ctor: "pull_all (5 :: 64 word) (push_all 5 (Fifo_ctor 5 0) [[1, 2], [3], [4, 5 :: int]])
        [(\<lambda>_. 0, 2), (\<lambda>_. 0, 0), (\<lambda>_. 0, 10)] = [1, 2, 3, 4, 5]"
    using fifo_order [OF inv empty fits, of "[(\<lambda>_. 0, 2), (\<lambda>_. 0, 0), (\<lambda>_. 0, 10)]" 0]
    by simp_all
  have some: "pull_all 5 (push_all 5 ?f [[1, 2], [3], [4, 5]])
        [(\<lambda>_. 0, 2), (\<lambda>_. 0, 1)] = [1, 2, 3]"
    using fifo_order [OF inv empty fits, of "[(\<lambda>_. 0, 2), (\<lambda>_. 0, 1)]" 0]
    by simp
  show ?thesis
    by (intro conjI reach inv fits wrapped all some ctor)
qed

end
